theory Spec2Isabelle
  imports Main
begin

section \<open>Log entries and errors\<close>

text \<open>
  The value type of the pipeline, \<^verbatim>\<open>app.Applog\<close>. Its declaration lives in another
  file of the vendored package; the fields are the ones the code below reads
  (\<^verbatim>\<open>AppName\<close>, \<^verbatim>\<open>Source\<close>, \<^verbatim>\<open>Unit\<close>) plus the payload.
\<close>

record Applog =
  Date :: int
  Message :: string
  Source :: string
  AppName :: string
  Unit :: string

text \<open>A Go \<^verbatim>\<open>error\<close> is its message; \<^verbatim>\<open>nil\<close> is \<open>None\<close>.\<close>

type_synonym error = string

section \<open>LogListener (log.go, lines 29-73)\<close>

text \<open>
  The forwarding goroutine of \<^verbatim>\<open>NewLogListener\<close>. Its state: the values sent on the
  delivery channel \<^verbatim>\<open>c\<close> so far (in order), whether \<^verbatim>\<open>c\<close> is closed, the number of
  deferred \<^verbatim>\<open>recover()\<close> closures registered on the goroutine's frame, and the lines
  written by \<^verbatim>\<open>log.Errorf\<close>.
\<close>

record forwarder =
  C :: "Applog list"
  C_closed :: bool
  deferred :: nat
  errlog :: "string list"

definition new_forwarder :: forwarder where
  "new_forwarder = \<lparr>C = [], C_closed = False, deferred = 0, errlog = []\<rparr>"

text \<open>The condition of lines 52-53.\<close>

definition filterMatch :: "Applog \<Rightarrow> Applog \<Rightarrow> bool" where
  "filterMatch filterLog applog \<longleftrightarrow>
     (Source filterLog = [] \<or> Source filterLog = Source applog) \<and>
     (Unit filterLog = [] \<or> Unit filterLog = Unit applog)"

text \<open>
  The body of \<^verbatim>\<open>for msg := range subChan\<close>, over the messages the subscription
  yields until it is closed. \<^verbatim>\<open>json.Unmarshal\<close> is the parameter \<open>unmarshal\<close>
  (\<open>Inl\<close> its error). A send on a closed channel panics: the loop then stops with
  \<open>Inl\<close> of the state at the panic.
\<close>

fun forwardLoop ::
  "(string \<Rightarrow> error + Applog) \<Rightarrow> Applog \<Rightarrow> forwarder \<Rightarrow> string list \<Rightarrow> forwarder + forwarder"
where
  "forwardLoop unmarshal filterLog st [] = Inr st"
| "forwardLoop unmarshal filterLog st (msg # rest) =
     (case unmarshal msg of
        Inl err \<Rightarrow>
          forwardLoop unmarshal filterLog
            (st\<lparr>errlog := errlog st @ [''Unparsable log message, ignoring: '' @ msg]\<rparr>) rest
      | Inr applog \<Rightarrow>
          if filterMatch filterLog applog then
            (let st1 = st\<lparr>deferred := Suc (deferred st)\<rparr> in
             if C_closed st1 then Inl st1
             else forwardLoop unmarshal filterLog (st1\<lparr>C := C st1 @ [applog]\<rparr>) rest)
          else forwardLoop unmarshal filterLog st rest)"

text \<open>
  How the goroutine ends. The deferred calls run last-registered first: the
  \<^verbatim>\<open>recover()\<close> closures, then \<^verbatim>\<open>close(c)\<close>, which itself panics on a closed channel
  with no \<^verbatim>\<open>recover\<close> left to run after it.
\<close>

datatype task_end = Returned forwarder | Crashed string

definition closeC :: "forwarder \<Rightarrow> task_end" where
  "closeC st = (if C_closed st then Crashed ''close of closed channel''
                else Returned (st\<lparr>C_closed := True\<rparr>))"

definition forwardTask :: "(string \<Rightarrow> error + Applog) \<Rightarrow> Applog \<Rightarrow> string list \<Rightarrow> task_end" where
  "forwardTask unmarshal filterLog msgs =
     (case forwardLoop unmarshal filterLog new_forwarder msgs of
        Inr st \<Rightarrow> closeC st
      | Inl st \<Rightarrow> (if deferred st > 0 then closeC st else Crashed ''send on closed channel''))"

text \<open>
  \<^verbatim>\<open>LogListener.Close\<close>. \<^verbatim>\<open>q.UnSub\<close> belongs to the queue package: what it does is the
  parameter, it returns an error value or panics with a value.
\<close>

datatype 'a call = Returns 'a | Panics string


text \<open>The entries among the published messages that decode, in order.\<close>

definition decoded :: "(string \<Rightarrow> error + Applog) \<Rightarrow> string list \<Rightarrow> Applog list" where
  "decoded unmarshal msgs =
     concat (map (\<lambda>m. case unmarshal m of Inl e \<Rightarrow> [] | Inr a \<Rightarrow> [a]) msgs)"

text \<open>A decoder for examples: the message text is the source, \<^verbatim>\<open>bad\<close> does not decode.\<close>

definition sample_entry :: "string \<Rightarrow> string \<Rightarrow> Applog" where
  "sample_entry src u = \<lparr>Date = 0, Message = ''m'', Source = src, AppName = ''x'', Unit = u\<rparr>"

definition sample_unmarshal :: "string \<Rightarrow> error + Applog" where
  "sample_unmarshal m = (if m = ''bad'' then Inl ''invalid character'' else Inr (sample_entry m ''u1''))"

section \<open>appLogDispatcher (log.go, lines 143-208)\<close>

text \<open>
  One pipeline is two goroutines and the channels between them. The state records where
  each goroutine stands:
  \<^item> \<^verbatim>\<open>runDBWriter\<close> is at \<^verbatim>\<open>range d.msgCh\<close> (\<open>Ranging\<close>), or has received and notified
    a message and is blocked in \<^verbatim>\<open>d.toFlush <- msg\<close> (\<open>Handing msg\<close>), or has returned, which
    closes \<^verbatim>\<open>d.done\<close> (\<open>WriterReturned\<close>);
  \<^item> \<^verbatim>\<open>runFlusher\<close> is before \<^verbatim>\<open>db.LogConn()\<close> (\<open>Connecting\<close>), at its \<^verbatim>\<open>select\<close>
    (\<open>Selecting\<close>), blocked in \<^verbatim>\<open>d.errCh <- err\<close> (\<open>Offering err\<close>), or has returned, which
    closes \<^verbatim>\<open>d.errCh\<close> (\<open>FlusherReturned\<close>).
  \<^verbatim>\<open>toFlush\<close>, \<^verbatim>\<open>done\<close> and \<^verbatim>\<open>errCh\<close> are unbuffered, so their state is the state of the
  goroutine blocked on them; \<^verbatim>\<open>msgCh\<close> is its buffer and whether it is closed.
\<close>

datatype writer = Ranging | Handing Applog | WriterReturned

datatype flusher = Connecting | Selecting | Offering error | FlusherReturned

text \<open>
  A \<^verbatim>\<open>time.Timer\<close>: \<open>armed\<close> when it will still expire, \<open>fired\<close> when its channel
  \<^verbatim>\<open>t.C\<close> holds a value. \<^verbatim>\<open>Reset\<close> arms it and leaves the channel as it is.
\<close>

record go_timer =
  armed :: bool
  fired :: bool

text \<open>
  \<open>bulkBuffer\<close> and \<open>bulkCap\<close> are the slice's contents and capacity; \<open>notified\<close> the
  entries passed to \<^verbatim>\<open>notify\<close>; \<open>insertCalls\<close> the batches passed to \<^verbatim>\<open>coll.Insert\<close>, in
  order; \<open>inserted\<close> those for which it returned nil.
\<close>

record appLogDispatcher =
  appName :: string
  msgCh :: "Applog list"
  msgCh_closed :: bool
  writer :: writer
  flusher :: flusher
  bulkBuffer :: "Applog list"
  bulkCap :: nat
  timer :: go_timer
  notified :: "Applog list"
  insertCalls :: "Applog list list"
  inserted :: "Applog list list"

text \<open>
  The storage collaborator (package \<^verbatim>\<open>db\<close>): the result of \<^verbatim>\<open>db.LogConn()\<close> and the
  result of \<^verbatim>\<open>coll.Insert\<close> on a batch, given the batches already stored.
\<close>

record db =
  LogConn :: "error option"
  Insert :: "Applog list list \<Rightarrow> Applog list \<Rightarrow> error option"

definition newAppLogDispatcher :: "string \<Rightarrow> appLogDispatcher" where
  "newAppLogDispatcher name =
     \<lparr>appName = name, msgCh = [], msgCh_closed = False, writer = Ranging,
      flusher = Connecting, bulkBuffer = [], bulkCap = 100,
      timer = \<lparr>armed = True, fired = False\<rparr>,
      notified = [], insertCalls = [], inserted = []\<rparr>"

text \<open>Lines 189-196: the bulk insert, and what follows it.\<close>

definition flush :: "db \<Rightarrow> appLogDispatcher \<Rightarrow> appLogDispatcher" where
  "flush db d =
     (let d1 = d\<lparr>insertCalls := insertCalls d @ [bulkBuffer d]\<rparr> in
      case Insert db (inserted d) (bulkBuffer d) of
        Some err \<Rightarrow> d1\<lparr>flusher := Offering err\<rparr>
      | None \<Rightarrow> d1\<lparr>inserted := inserted d @ [bulkBuffer d], bulkBuffer := []\<rparr>)"

text \<open>
  The steps the two goroutines and the timer can take:
  \<^item> \<open>Connect\<close>: lines 168-174;
  \<^item> \<open>Receive\<close>: the writer takes the head of \<^verbatim>\<open>msgCh\<close> and notifies it (lines 203-205);
  \<^item> \<open>Exit\<close>: \<^verbatim>\<open>msgCh\<close> is closed and drained, the writer returns and closes \<^verbatim>\<open>done\<close>;
  \<^item> \<open>Handoff\<close>: the rendezvous on \<^verbatim>\<open>toFlush\<close> (line 206 with lines 180-185), then
    lines 189-196. \<^verbatim>\<open>append\<close> keeps the capacity while there is room and grows it otherwise;
  \<^item> \<open>Expire\<close>: the timer expires and puts a value in \<^verbatim>\<open>t.C\<close>;
  \<^item> \<open>Tick\<close>: the flusher receives from \<^verbatim>\<open>t.C\<close> (lines 186-187), then lines 189-196;
  \<^item> \<open>Done\<close>: the flusher receives from the closed \<^verbatim>\<open>done\<close> and returns (lines 178-179).
  A step that cannot be taken in a state is \<open>None\<close>.
\<close>

datatype action = Connect | Receive | Exit | Handoff | Expire | Tick | Done

definition step :: "db \<Rightarrow> action \<Rightarrow> appLogDispatcher \<Rightarrow> appLogDispatcher option" where
  "step db a d =
     (case a of
        Connect \<Rightarrow>
          if flusher d = Connecting then
            Some (case LogConn db of
                    Some err \<Rightarrow> d\<lparr>flusher := Offering err\<rparr>
                  | None \<Rightarrow> d\<lparr>flusher := Selecting\<rparr>)
          else None
      | Receive \<Rightarrow>
          if writer d = Ranging then
            (case msgCh d of
               [] \<Rightarrow> None
             | msg # rest \<Rightarrow>
                 Some (d\<lparr>msgCh := rest, notified := notified d @ [msg], writer := Handing msg\<rparr>))
          else None
      | Exit \<Rightarrow>
          if writer d = Ranging \<and> msgCh d = [] \<and> msgCh_closed d
          then Some (d\<lparr>writer := WriterReturned\<rparr>) else None
      | Handoff \<Rightarrow>
          (case writer d of
             Handing msg \<Rightarrow>
               if flusher d = Selecting then
                 (let d1 = d\<lparr>writer := Ranging,
                             bulkBuffer := bulkBuffer d @ [msg],
                             bulkCap := (if length (bulkBuffer d) < bulkCap d then bulkCap d
                                         else 2 * bulkCap d + 1)\<rparr>
                  in Some (if length (bulkBuffer d1) = bulkCap d1 then flush db d1
                           else d1\<lparr>timer := (timer d1)\<lparr>armed := True\<rparr>\<rparr>))
               else None
           | _ \<Rightarrow> None)
      | Expire \<Rightarrow>
          if armed (timer d) then Some (d\<lparr>timer := \<lparr>armed = False, fired = True\<rparr>\<rparr>) else None
      | Tick \<Rightarrow>
          if flusher d = Selecting \<and> fired (timer d) then
            (let d1 = d\<lparr>timer := (timer d)\<lparr>fired := False\<rparr>\<rparr>
             in Some (if length (bulkBuffer d1) > 0 then flush db d1 else d1))
          else None
      | Done \<Rightarrow>
          if flusher d = Selecting \<and> writer d = WriterReturned
          then Some (d\<lparr>flusher := FlusherReturned\<rparr>) else None)"

text \<open>A schedule of steps, taken in order.\<close>

fun run :: "db \<Rightarrow> action list \<Rightarrow> appLogDispatcher \<Rightarrow> appLogDispatcher option" where
  "run db [] d = Some d"
| "run db (a # as) d = (case step db a d of None \<Rightarrow> None | Some d' \<Rightarrow> run db as d')"

text \<open>
  What the dispatcher does to a pipeline: the send \<^verbatim>\<open>appD.msgCh <- msg\<close> (capacity 10000; it
  panics on a closed channel and cannot proceed on a full one), \<^verbatim>\<open>close(appD.msgCh)\<close>, and the
  receive \<^verbatim>\<open><-appD.errCh\<close>, which yields the error the flusher offers, or nil once the channel
  is closed, and cannot proceed otherwise.
\<close>

definition sendMsgCh :: "Applog \<Rightarrow> appLogDispatcher \<Rightarrow> appLogDispatcher call option" where
  "sendMsgCh msg d =
     (if msgCh_closed d then Some (Panics ''send on closed channel'')
      else if length (msgCh d) < 10000 then Some (Returns (d\<lparr>msgCh := msgCh d @ [msg]\<rparr>))
      else None)"

definition closeMsgCh :: "appLogDispatcher \<Rightarrow> appLogDispatcher call" where
  "closeMsgCh d = (if msgCh_closed d then Panics ''close of closed channel''
                   else Returns (d\<lparr>msgCh_closed := True\<rparr>))"

definition recvErrCh :: "appLogDispatcher \<Rightarrow> (error option \<times> appLogDispatcher) option" where
  "recvErrCh d =
     (case flusher d of
        Offering err \<Rightarrow> Some (Some err, d\<lparr>flusher := FlusherReturned\<rparr>)
      | FlusherReturned \<Rightarrow> Some (None, d)
      | _ \<Rightarrow> None)"

section \<open>logDispatcher (log.go, lines 99-141)\<close>

text \<open>
  The routing table, and beside it the pipelines already deleted from it, as they were
  when deleted (their flusher has returned by then, so what they stored no longer changes).
\<close>

record logDispatcher =
  dispatchers :: "string \<rightharpoonup> appLogDispatcher"
  retired :: "appLogDispatcher list"

definition NewlogDispatcher :: logDispatcher where
  "NewlogDispatcher = \<lparr>dispatchers = Map.empty, retired = []\<rparr>"

text \<open>
  \<^verbatim>\<open>Send\<close>. The \<^verbatim>\<open>select\<close> takes one of the two communications that can proceed; which one
  is the parameter \<open>ch\<close>, and \<open>sched\<close> are the steps the pipeline takes between the lookup
  (or creation) and the moment the \<^verbatim>\<open>select\<close> commits. \<open>None\<close>: the chosen communication
  cannot proceed there.
\<close>

datatype choice = SendMsg | RecvErr

definition Send ::
  "db \<Rightarrow> action list \<Rightarrow> choice \<Rightarrow> Applog \<Rightarrow> logDispatcher \<Rightarrow> (error option \<times> logDispatcher) call option"
where
  "Send db sched ch msg D =
     (let name = AppName msg;
          appD = (case dispatchers D name of
                    None \<Rightarrow> newAppLogDispatcher name
                  | Some appD \<Rightarrow> appD)
      in case run db sched appD of
           None \<Rightarrow> None
         | Some appD1 \<Rightarrow>
             (case ch of
                SendMsg \<Rightarrow>
                  (case sendMsgCh msg appD1 of
                     None \<Rightarrow> None
                   | Some (Panics r) \<Rightarrow> Some (Panics r)
                   | Some (Returns appD2) \<Rightarrow>
                       Some (Returns (None, D\<lparr>dispatchers := (dispatchers D)(name \<mapsto> appD2)\<rparr>)))
              | RecvErr \<Rightarrow>
                  (case recvErrCh appD1 of
                     None \<Rightarrow> None
                   | Some (err, appD2) \<Rightarrow>
                       (case closeMsgCh appD2 of
                          Panics r \<Rightarrow> Some (Panics r)
                        | Returns appD3 \<Rightarrow>
                            Some (Returns (err, D\<lparr>dispatchers := (dispatchers D)(name := None),
                                                  retired := retired D @ [appD3]\<rparr>))))))"

text \<open>
  \<^verbatim>\<open>Stop\<close>. \<open>order\<close> is the order in which \<^verbatim>\<open>range d.dispatchers\<close> yields the keys,
  \<open>scheds name\<close> the steps that pipeline takes between \<^verbatim>\<open>close(appD.msgCh)\<close> and the
  receive from \<^verbatim>\<open>appD.errCh\<close>. \<open>stopOne\<close> is lines 130-131 for one pipeline, \<open>addErr\<close>
  lines 132-138.
\<close>

definition stopOne ::
  "db \<Rightarrow> action list \<Rightarrow> appLogDispatcher \<Rightarrow> (error option \<times> appLogDispatcher) call option"
where
  "stopOne db sched appD =
     (case closeMsgCh appD of
        Panics r \<Rightarrow> Some (Panics r)
      | Returns appD1 \<Rightarrow>
          (case run db sched appD1 of
             None \<Rightarrow> None
           | Some appD2 \<Rightarrow>
               (case recvErrCh appD2 of
                  None \<Rightarrow> None
                | Some (err, appD3) \<Rightarrow> Some (Returns (err, appD3)))))"

definition addErr :: "error option \<Rightarrow> error option \<Rightarrow> error option" where
  "addErr finalErr err =
     (case err of
        None \<Rightarrow> finalErr
      | Some e \<Rightarrow> (case finalErr of None \<Rightarrow> Some e | Some f \<Rightarrow> Some (f @ '', '' @ e)))"

fun StopLoop ::
  "db \<Rightarrow> (string \<Rightarrow> action list) \<Rightarrow> string list \<Rightarrow> error option \<Rightarrow> logDispatcher \<Rightarrow>
   (error option \<times> logDispatcher) call option"
where
  "StopLoop db scheds [] finalErr D = Some (Returns (finalErr, D))"
| "StopLoop db scheds (name # rest) finalErr D =
     (case dispatchers D name of
        None \<Rightarrow> StopLoop db scheds rest finalErr D
      | Some appD \<Rightarrow>
          (case stopOne db (scheds name) appD of
             None \<Rightarrow> None
           | Some (Panics r) \<Rightarrow> Some (Panics r)
           | Some (Returns (err, appD3)) \<Rightarrow>
               StopLoop db scheds rest (addErr finalErr err)
                 (D\<lparr>dispatchers := (dispatchers D)(name := None),
                    retired := retired D @ [appD3]\<rparr>)))"

definition Stop ::
  "db \<Rightarrow> string list \<Rightarrow> (string \<Rightarrow> action list) \<Rightarrow> logDispatcher \<Rightarrow>
   (error option \<times> logDispatcher) call option"
where
  "Stop db order scheds D = StopLoop db scheds order None D"

text \<open>
  Between two calls the goroutines of a pipeline in the table keep running: \<open>background\<close>
  lets the pipeline of one application take the steps of a schedule.
\<close>

definition background :: "db \<Rightarrow> string \<Rightarrow> action list \<Rightarrow> logDispatcher \<Rightarrow> logDispatcher option" where
  "background db name sched D =
     (case dispatchers D name of
        None \<Rightarrow> None
      | Some appD \<Rightarrow>
          (case run db sched appD of
             None \<Rightarrow> None
           | Some appD1 \<Rightarrow> Some (D\<lparr>dispatchers := (dispatchers D)(name \<mapsto> appD1)\<rparr>)))"

section \<open>Runs of one pipeline\<close>

text \<open>
  What happens to one pipeline while it is in the routing table: the dispatcher sends on
  \<^verbatim>\<open>msgCh\<close> or closes it, and the goroutines take steps, in any interleaving.
\<close>

datatype event = Enq Applog | CloseCh | Act action

definition apply_event :: "db \<Rightarrow> event \<Rightarrow> appLogDispatcher \<Rightarrow> appLogDispatcher option" where
  "apply_event db e d =
     (case e of
        Enq msg \<Rightarrow> (case sendMsgCh msg d of Some (Returns d') \<Rightarrow> Some d' | _ \<Rightarrow> None)
      | CloseCh \<Rightarrow> (case closeMsgCh d of Returns d' \<Rightarrow> Some d' | Panics r \<Rightarrow> None)
      | Act a \<Rightarrow> step db a d)"

fun exec :: "db \<Rightarrow> event list \<Rightarrow> appLogDispatcher \<Rightarrow> appLogDispatcher option" where
  "exec db [] d = Some d"
| "exec db (e # es) d = (case apply_event db e d of None \<Rightarrow> None | Some d' \<Rightarrow> exec db es d')"

text \<open>The entries sent in a run, and the entry the writer holds, if any.\<close>

fun enqueued :: "event list \<Rightarrow> Applog list" where
  "enqueued [] = []"
| "enqueued (Enq msg # es) = msg # enqueued es"
| "enqueued (e # es) = enqueued es"

fun handing :: "writer \<Rightarrow> Applog list" where
  "handing (Handing msg) = [msg]"
| "handing w = []"

text \<open>Storage for examples: one that works, and one whose every insert fails.\<close>

definition okdb :: db where
  "okdb = \<lparr>LogConn = None, Insert = (\<lambda>stored batch. None)\<rparr>"

definition faildb :: db where
  "faildb = \<lparr>LogConn = None, Insert = (\<lambda>stored batch. Some ''insert failed'')\<rparr>"


text \<open>
  The entries a pipeline holds or has stored: the stored batches, the buffer, the entry in
  the hand-off and the queue, oldest first.
\<close>

definition accounted :: "appLogDispatcher \<Rightarrow> Applog list" where
  "accounted d = concat (inserted d) @ bulkBuffer d @ handing (writer d) @ msgCh d"

text \<open>An entry for examples, and the run that connects and buffers it 99 times.\<close>

definition m1 :: Applog where
  "m1 = sample_entry ''app'' ''u1''"

definition filling :: "event list" where
  "filling = Act Connect # concat (replicate 99 [Enq m1, Act Receive, Act Handoff])"

text \<open>
  The pipeline of application \<^verbatim>\<open>x\<close> after its first bulk insert, of the one entry
  \<open>m1\<close> on the timer's expiry, has failed.
\<close>

definition failed_x :: appLogDispatcher where
  "failed_x = (newAppLogDispatcher ''x'')\<lparr>flusher := Offering ''insert failed'',
       bulkBuffer := [m1], notified := [m1], insertCalls := [[m1]],
       timer := \<lparr>armed = False, fired = False\<rparr>\<rparr>"

text \<open>
  What \<^verbatim>\<open>Stop\<close> is to return for the errors received from the pipelines, in order: nil
  when there is none, else the non-nil ones joined by a comma and a space.
\<close>

fun joinErrs :: "error list \<Rightarrow> error option" where
  "joinErrs [] = None"
| "joinErrs (e # es) = Some (foldl (\<lambda>f e'. f @ '', '' @ e') e es)"

text \<open>
  For examples: an entry of application \<^verbatim>\<open>y\<close>, a storage that fails the bulk inserts of
  application \<^verbatim>\<open>x\<close> only, and the steps that take one queued entry to storage on the
  timer's expiry and shut the pipeline down.
\<close>

definition m2 :: Applog where
  "m2 = m1\<lparr>AppName := ''y''\<rparr>"

definition xfaildb :: db where
  "xfaildb = \<lparr>LogConn = None,
              Insert = (\<lambda>stored batch. if AppName (hd batch) = ''x'' then Some ''insert failed''
                                       else None)\<rparr>"

definition drain_y :: "string \<Rightarrow> action list" where
  "drain_y name = (if name = ''y'' then [Connect, Receive, Handoff, Expire, Tick, Exit, Done]
                   else [])"

text \<open>
  What holds of the flusher's buffer in every state a pipeline reaches: the capacity stays
  100, the flusher never waits at its \<^verbatim>\<open>select\<close> with a full buffer, and every batch passed
  to \<^verbatim>\<open>coll.Insert\<close> has between 1 and 100 entries.
\<close>

definition flusher_inv :: "appLogDispatcher \<Rightarrow> bool" where
  "flusher_inv d \<longleftrightarrow>
     bulkCap d = 100 \<and> length (bulkBuffer d) \<le> 100 \<and>
     (flusher d = Selecting \<or> flusher d = Connecting \<longrightarrow> length (bulkBuffer d) < 100) \<and>
     (\<forall>b \<in> set (insertCalls d). 0 < length b \<and> length b \<le> 100)"

section \<open>The ingestion endpoint: addLogs (part_000)\<close>














text \<open>No pipeline of the table has its queue closed.\<close>

definition tableOpen :: "logDispatcher \<Rightarrow> bool" where
  "tableOpen D \<longleftrightarrow> (\<forall>name d. dispatchers D name = Some d \<longrightarrow> \<not> msgCh_closed d)"

section \<open>Properties of the listener\<close>

lemma forwardLoop_open:
  "\<not> C_closed st \<Longrightarrow>
   \<exists>st'. forwardLoop unmarshal filterLog st msgs = Inr st' \<and> \<not> C_closed st' \<and>
     C st' = C st @ filter (filterMatch filterLog) (decoded unmarshal msgs)"
  unfolding decoded_def
proof (induction msgs arbitrary: st)
  case Nil
  then show ?case by simp
next
  case (Cons msg rest)
  show ?case
  proof (cases "unmarshal msg")
    case (Inl e)
    let ?st1 = "st\<lparr>errlog := errlog st @ [''Unparsable log message, ignoring: '' @ msg]\<rparr>"
    have "\<not> C_closed ?st1" using Cons.prems by simp
    from Cons.IH[OF this] show ?thesis using Inl by simp
  next
    case (Inr a)
    show ?thesis
    proof (cases "filterMatch filterLog a")
      case True
      let ?st2 = "st\<lparr>deferred := Suc (deferred st), C := C st @ [a]\<rparr>"
      have "\<not> C_closed ?st2" using Cons.prems by simp
      from Cons.IH[OF this] show ?thesis using Inr True Cons.prems by (simp add: Let_def)
    next
      case False
      from Cons.IH[OF Cons.prems] show ?thesis using Inr False by simp
    qed
  qed
qed

lemma forwardTask_returns:
  "\<exists>st. forwardTask unmarshal filterLog msgs = Returned st \<and>
     C st = filter (filterMatch filterLog) (decoded unmarshal msgs)"
proof -
  have "\<not> C_closed new_forwarder" by (simp add: new_forwarder_def)
  from forwardLoop_open[OF this, of unmarshal filterLog msgs]
  obtain st' where "forwardLoop unmarshal filterLog new_forwarder msgs = Inr st'"
    and "\<not> C_closed st'"
    and "C st' = C new_forwarder @ filter (filterMatch filterLog) (decoded unmarshal msgs)"
    by blast
  then show ?thesis by (simp add: forwardTask_def closeC_def new_forwarder_def)
qed

text \<open>
  C6: the entries the listener delivers are exactly the decoded entries for which both
  filter fields match (a field matches when the filter's field is empty or equal to the
  entry's), in the order published; with the filter \<^verbatim>\<open>{Source: "app", Unit: ""}\<close> these
  are exactly the entries whose Source is \<^verbatim>\<open>app\<close>, whatever their Unit.
\<close>

theorem listener_delivers_iff_filter_matches:
  "\<exists>st. forwardTask unmarshal filterLog msgs = Returned st \<and>
     C st = filter (\<lambda>a. (Source filterLog = [] \<or> Source filterLog = Source a) \<and>
                        (Unit filterLog = [] \<or> Unit filterLog = Unit a))
                  (decoded unmarshal msgs) \<and>
     (Source filterLog = ''app'' \<and> Unit filterLog = [] \<longrightarrow>
        C st = filter (\<lambda>a. Source a = ''app'') (decoded unmarshal msgs))"
proof -
  obtain st where r: "forwardTask unmarshal filterLog msgs = Returned st"
    and cs: "C st = filter (filterMatch filterLog) (decoded unmarshal msgs)"
    using forwardTask_returns by blast
  have m: "filterMatch filterLog =
      (\<lambda>a. (Source filterLog = [] \<or> Source filterLog = Source a) \<and>
           (Unit filterLog = [] \<or> Unit filterLog = Unit a))"
    by (rule ext) (simp add: filterMatch_def)
  have "Source filterLog = ''app'' \<and> Unit filterLog = [] \<Longrightarrow>
        filterMatch filterLog = (\<lambda>a. Source a = ''app'')"
    by (rule ext) (auto simp: filterMatch_def)
  with r cs m show ?thesis by auto
qed

theorem listener_delivers_iff_filter_matches_witness:
  "\<exists>st. forwardTask sample_unmarshal (sample_entry ''app'' []) [''app'', ''bad'', ''web'', ''app''] = Returned st \<and>
     C st = [sample_entry ''app'' ''u1'', sample_entry ''app'' ''u1'']"
  using listener_delivers_iff_filter_matches
    [of sample_unmarshal "sample_entry ''app'' []" "[''app'', ''bad'', ''web'', ''app'']"]
  by (simp add: decoded_def sample_unmarshal_def sample_entry_def)



section \<open>The steps of a pipeline, one by one\<close>

lemma step_Connect:
  "step db Connect d = Some d' \<longleftrightarrow>
     flusher d = Connecting \<and>
     d' = d\<lparr>flusher := (case LogConn db of None \<Rightarrow> Selecting | Some err \<Rightarrow> Offering err)\<rparr>"
  by (cases "LogConn db") (auto simp: step_def)

lemma step_Receive:
  "step db Receive d = Some d' \<longleftrightarrow>
     writer d = Ranging \<and> msgCh d \<noteq> [] \<and>
     d' = d\<lparr>msgCh := tl (msgCh d), notified := notified d @ [hd (msgCh d)],
            writer := Handing (hd (msgCh d))\<rparr>"
  by (cases "msgCh d") (auto simp: step_def)

lemma step_Exit:
  "step db Exit d = Some d' \<longleftrightarrow>
     writer d = Ranging \<and> msgCh d = [] \<and> msgCh_closed d \<and> d' = d\<lparr>writer := WriterReturned\<rparr>"
  by (auto simp: step_def)

lemma step_Expire:
  "step db Expire d = Some d' \<longleftrightarrow>
     armed (timer d) \<and> d' = d\<lparr>timer := \<lparr>armed = False, fired = True\<rparr>\<rparr>"
  by (auto simp: step_def)

lemma step_Done:
  "step db Done d = Some d' \<longleftrightarrow>
     flusher d = Selecting \<and> writer d = WriterReturned \<and> d' = d\<lparr>flusher := FlusherReturned\<rparr>"
  by (auto simp: step_def)

lemma step_Tick:
  "step db Tick d = Some d' \<longleftrightarrow>
     flusher d = Selecting \<and> fired (timer d) \<and>
     d' = (if bulkBuffer d = [] then d\<lparr>timer := (timer d)\<lparr>fired := False\<rparr>\<rparr>
           else flush db (d\<lparr>timer := (timer d)\<lparr>fired := False\<rparr>\<rparr>))"
  by (auto simp: step_def Let_def)

lemma step_Handoff:
  "step db Handoff d = Some d' \<longleftrightarrow>
     (\<exists>msg. writer d = Handing msg \<and> flusher d = Selecting \<and>
        d' = (let d1 = d\<lparr>writer := Ranging, bulkBuffer := bulkBuffer d @ [msg],
                          bulkCap := (if length (bulkBuffer d) < bulkCap d then bulkCap d
                                      else 2 * bulkCap d + 1)\<rparr>
              in if length (bulkBuffer d1) = bulkCap d1 then flush db d1
                 else d1\<lparr>timer := (timer d1)\<lparr>armed := True\<rparr>\<rparr>))"
  by (cases "writer d") (auto simp: step_def Let_def)

text \<open>With the capacity at 100 and room in the buffer, the hand-off reads as follows.\<close>

lemma step_Handoff_100:
  assumes "step db Handoff d = Some d'" "writer d = Handing msg"
    "bulkCap d = 100" "length (bulkBuffer d) < 100"
  shows "flusher d = Selecting"
    and "length (bulkBuffer d) = 99 \<Longrightarrow>
         d' = flush db (d\<lparr>writer := Ranging, bulkBuffer := bulkBuffer d @ [msg], bulkCap := 100\<rparr>)"
    and "length (bulkBuffer d) \<noteq> 99 \<Longrightarrow>
         d' = d\<lparr>writer := Ranging, bulkBuffer := bulkBuffer d @ [msg], bulkCap := 100,
                timer := (timer d)\<lparr>armed := True\<rparr>\<rparr>"
  using assms by (simp_all add: step_Handoff Let_def)

lemma flush_fields [simp]:
  "insertCalls (flush db d) = insertCalls d @ [bulkBuffer d]"
  "bulkCap (flush db d) = bulkCap d"
  "writer (flush db d) = writer d"
  "msgCh (flush db d) = msgCh d"
  "msgCh_closed (flush db d) = msgCh_closed d"
  "timer (flush db d) = timer d"
  "notified (flush db d) = notified d"
  "appName (flush db d) = appName d"
  by (simp_all add: flush_def Let_def split: option.splits)

lemma flush_result:
  "flusher (flush db d) =
     (case Insert db (inserted d) (bulkBuffer d) of None \<Rightarrow> flusher d | Some err \<Rightarrow> Offering err)"
  "bulkBuffer (flush db d) =
     (case Insert db (inserted d) (bulkBuffer d) of None \<Rightarrow> [] | Some err \<Rightarrow> bulkBuffer d)"
  "inserted (flush db d) =
     (case Insert db (inserted d) (bulkBuffer d) of
        None \<Rightarrow> inserted d @ [bulkBuffer d] | Some err \<Rightarrow> inserted d)"
  by (simp_all add: flush_def Let_def split: option.splits)

section \<open>The buffer invariant\<close>

lemma flush_inv:
  assumes "bulkCap d = 100" "bulkBuffer d \<noteq> []" "length (bulkBuffer d) \<le> 100"
    "\<forall>b \<in> set (insertCalls d). 0 < length b \<and> length b \<le> 100"
  shows "flusher_inv (flush db d)"
  using assms
  by (cases "Insert db (inserted d) (bulkBuffer d)") (simp_all add: flusher_inv_def flush_result)

lemma step_inv:
  assumes inv: "flusher_inv d" and st: "step db a d = Some d'"
  shows "flusher_inv d'"
proof (cases a)
  case Connect
  with st have "flusher d = Connecting"
    and "d' = d\<lparr>flusher := (case LogConn db of None \<Rightarrow> Selecting | Some err \<Rightarrow> Offering err)\<rparr>"
    by (simp_all add: step_Connect)
  with inv show ?thesis by (simp add: flusher_inv_def)
next
  case Receive
  with st have "d' = d\<lparr>msgCh := tl (msgCh d), notified := notified d @ [hd (msgCh d)],
                       writer := Handing (hd (msgCh d))\<rparr>"
    by (simp add: step_Receive)
  with inv show ?thesis by (simp add: flusher_inv_def)
next
  case Exit
  with st have "d' = d\<lparr>writer := WriterReturned\<rparr>" by (simp add: step_Exit)
  with inv show ?thesis by (simp add: flusher_inv_def)
next
  case Expire
  with st have "d' = d\<lparr>timer := \<lparr>armed = False, fired = True\<rparr>\<rparr>" by (simp add: step_Expire)
  with inv show ?thesis by (simp add: flusher_inv_def)
next
  case Done
  with st have "flusher d = Selecting" and "d' = d\<lparr>flusher := FlusherReturned\<rparr>"
    by (simp_all add: step_Done)
  with inv show ?thesis by (simp add: flusher_inv_def)
next
  case Tick
  let ?d1 = "d\<lparr>timer := (timer d)\<lparr>fired := False\<rparr>\<rparr>"
  from st Tick have d': "d' = (if bulkBuffer d = [] then ?d1 else flush db ?d1)"
    by (simp add: step_Tick)
  show ?thesis
  proof (cases "bulkBuffer d = []")
    case True
    with d' inv show ?thesis by (simp add: flusher_inv_def)
  next
    case False
    have "flusher_inv (flush db ?d1)"
      using inv False by (intro flush_inv) (simp_all add: flusher_inv_def)
    with d' False show ?thesis by simp
  qed
next
  case Handoff
  with st obtain msg where w: "writer d = Handing msg" and f: "flusher d = Selecting"
    by (auto simp: step_Handoff)
  from inv f have cap: "bulkCap d = 100" and len: "length (bulkBuffer d) < 100"
    and calls: "\<forall>b \<in> set (insertCalls d). 0 < length b \<and> length b \<le> 100"
    by (simp_all add: flusher_inv_def)
  note h = step_Handoff_100[OF st[unfolded Handoff] w cap len]
  show ?thesis
  proof (cases "length (bulkBuffer d) = 99")
    case True
    have "flusher_inv (flush db (d\<lparr>writer := Ranging, bulkBuffer := bulkBuffer d @ [msg],
                                    bulkCap := 100\<rparr>))"
      using calls True by (intro flush_inv) simp_all
    with h(2)[OF True] show ?thesis by simp
  next
    case False
    with len have "Suc (length (bulkBuffer d)) < 100" by simp
    with h(3)[OF False] calls f show ?thesis by (simp add: flusher_inv_def)
  qed
qed

lemma apply_event_inv:
  assumes "flusher_inv d" "apply_event db e d = Some d'"
  shows "flusher_inv d'"
proof (cases e)
  case (Enq msg)
  with assms(2) have "d' = d\<lparr>msgCh := msgCh d @ [msg]\<rparr>"
    by (simp add: apply_event_def sendMsgCh_def split: if_splits)
  with assms(1) show ?thesis by (simp add: flusher_inv_def)
next
  case CloseCh
  with assms(2) have "d' = d\<lparr>msgCh_closed := True\<rparr>"
    by (simp add: apply_event_def closeMsgCh_def split: if_splits)
  with assms(1) show ?thesis by (simp add: flusher_inv_def)
next
  case (Act a)
  with assms show ?thesis using step_inv[of d db a d'] by (simp add: apply_event_def)
qed

lemma exec_inv: "flusher_inv d \<Longrightarrow> exec db es d = Some d' \<Longrightarrow> flusher_inv d'"
proof (induction es arbitrary: d)
  case Nil
  then show ?case by simp
next
  case (Cons e es)
  then obtain d1 where "apply_event db e d = Some d1" and "exec db es d1 = Some d'"
    by (auto split: option.splits)
  with Cons.IH apply_event_inv[OF Cons.prems(1)] show ?case by blast
qed

lemma new_inv: "flusher_inv (newAppLogDispatcher name)"
  by (simp add: flusher_inv_def newAppLogDispatcher_def)

lemma reachable_inv: "exec db es (newAppLogDispatcher name) = Some d \<Longrightarrow> flusher_inv d"
  using exec_inv[OF new_inv] .

lemma exec_append:
  "exec db (es @ fs) d = (case exec db es d of None \<Rightarrow> None | Some d' \<Rightarrow> exec db fs d')"
  by (induction es arbitrary: d) (simp_all split: option.splits)

lemma exec_round:
  assumes "flusher d = Selecting" "writer d = Ranging" "msgCh d = []" "\<not> msgCh_closed d"
    "bulkCap d = 100" "Suc (length (bulkBuffer d)) < 100"
  shows "exec db [Enq m, Act Receive, Act Handoff] d =
         Some (d\<lparr>bulkBuffer := bulkBuffer d @ [m], notified := notified d @ [m],
                 timer := (timer d)\<lparr>armed := True\<rparr>\<rparr>)"
proof -
  let ?d1 = "d\<lparr>msgCh := [m]\<rparr>"
  let ?d2 = "d\<lparr>notified := notified d @ [m], writer := Handing m\<rparr>"
  let ?d3 = "d\<lparr>bulkBuffer := bulkBuffer d @ [m], notified := notified d @ [m],
                 timer := (timer d)\<lparr>armed := True\<rparr>\<rparr>"
  have 1: "apply_event db (Enq m) d = Some ?d1"
    using assms by (simp add: apply_event_def sendMsgCh_def)
  have 2: "apply_event db (Act Receive) ?d1 = Some ?d2"
    using assms by (simp add: apply_event_def step_Receive) 
  have 3: "apply_event db (Act Handoff) ?d2 = Some ?d3"
    using assms by (simp add: apply_event_def step_Handoff Let_def)
  from 1 2 3 show ?thesis by simp
qed

lemma exec_rounds:
  assumes "flusher d = Selecting" "writer d = Ranging" "msgCh d = []" "\<not> msgCh_closed d"
    "bulkCap d = 100" "length (bulkBuffer d) + n < 100"
  shows "exec db (concat (replicate n [Enq m, Act Receive, Act Handoff])) d =
         Some (d\<lparr>bulkBuffer := bulkBuffer d @ replicate n m, notified := notified d @ replicate n m,
                 timer := (timer d)\<lparr>armed := armed (timer d) \<or> 0 < n\<rparr>\<rparr>)"
  using assms
proof (induction n arbitrary: d)
  case 0
  then show ?case by simp
next
  case (Suc n)
  let ?d1 = "d\<lparr>bulkBuffer := bulkBuffer d @ [m], notified := notified d @ [m],
                 timer := (timer d)\<lparr>armed := True\<rparr>\<rparr>"
  have r: "exec db [Enq m, Act Receive, Act Handoff] d = Some ?d1"
    using Suc.prems by (intro exec_round) simp_all
  have ih: "exec db (concat (replicate n [Enq m, Act Receive, Act Handoff])) ?d1 =
      Some (?d1\<lparr>bulkBuffer := bulkBuffer ?d1 @ replicate n m,
                  notified := notified ?d1 @ replicate n m,
                  timer := (timer ?d1)\<lparr>armed := armed (timer ?d1) \<or> 0 < n\<rparr>\<rparr>)"
    using Suc.prems by (intro Suc.IH) simp_all
  have "exec db (concat (replicate (Suc n) [Enq m, Act Receive, Act Handoff])) d =
        exec db ([Enq m, Act Receive, Act Handoff] @ concat (replicate n [Enq m, Act Receive, Act Handoff])) d"
    by simp
  also have "\<dots> = exec db (concat (replicate n [Enq m, Act Receive, Act Handoff])) ?d1"
    unfolding exec_append r by simp
  also note ih
  finally show ?case by (simp add: replicate_app_Cons_same)
qed


lemma exec_filling:
  assumes "LogConn db = None"
  shows "exec db filling (newAppLogDispatcher name) =
     Some ((newAppLogDispatcher name)\<lparr>flusher := Selecting, bulkBuffer := replicate 99 m1,
            notified := replicate 99 m1\<rparr>)"
proof -
  let ?d0 = "(newAppLogDispatcher name)\<lparr>flusher := Selecting\<rparr>"
  have c: "apply_event db (Act Connect) (newAppLogDispatcher name) = Some ?d0"
    using assms by (simp add: apply_event_def step_Connect newAppLogDispatcher_def)
  have "exec db (concat (replicate 99 [Enq m1, Act Receive, Act Handoff])) ?d0 =
     Some (?d0\<lparr>bulkBuffer := bulkBuffer ?d0 @ replicate 99 m1,
                 notified := notified ?d0 @ replicate 99 m1,
                 timer := (timer ?d0)\<lparr>armed := armed (timer ?d0) \<or> 0 < (99::nat)\<rparr>\<rparr>)"
    by (intro exec_rounds) (simp_all add: newAppLogDispatcher_def)
  with c show ?thesis by (simp add: filling_def newAppLogDispatcher_def)
qed

text \<open>
  C3: in every state a pipeline reaches, the buffer holds fewer than 100 entries when an
  entry is handed to the batcher; accepting it calls the bulk insert, with the buffer and
  the new entry, exactly when it is the 100th, whatever the state of the timer; and no
  batch ever passed to the bulk insert has more than 100 entries.
\<close>

theorem size_flush_exactly_at_100th:
  assumes "exec db es (newAppLogDispatcher name) = Some d"
    and "writer d = Handing msg" and "step db Handoff d = Some d'"
  shows "length (bulkBuffer d) < 100 \<and>
         insertCalls d' = (if length (bulkBuffer d) = 99 then insertCalls d @ [bulkBuffer d @ [msg]]
                           else insertCalls d) \<and>
         (\<forall>b \<in> set (insertCalls d'). length b \<le> 100)"
proof -
  have inv: "flusher_inv d" using assms(1) by (rule reachable_inv)
  from assms(3) have f: "flusher d = Selecting" by (auto simp: step_Handoff)
  from inv f have cap: "bulkCap d = 100" and len: "length (bulkBuffer d) < 100"
    by (simp_all add: flusher_inv_def)
  note h = step_Handoff_100[OF assms(3) assms(2) cap len]
  have "flusher_inv d'" using inv assms(3) by (rule step_inv)
  then have all: "\<forall>b \<in> set (insertCalls d'). length b \<le> 100" by (simp add: flusher_inv_def)
  have "insertCalls d' = (if length (bulkBuffer d) = 99 then insertCalls d @ [bulkBuffer d @ [msg]]
                           else insertCalls d)"
  proof (cases "length (bulkBuffer d) = 99")
    case True
    with h(2)[OF True] show ?thesis by simp
  next
    case False
    with h(3)[OF False] show ?thesis by simp
  qed
  with len all show ?thesis by blast
qed

theorem size_flush_exactly_at_100th_witness:
  "\<exists>d d'. exec okdb (filling @ [Enq m1, Act Receive]) (newAppLogDispatcher ''x'') = Some d \<and>
     step okdb Handoff d = Some d' \<and> length (bulkBuffer d) = 99 \<and>
     insertCalls d = [] \<and> insertCalls d' = [replicate 99 m1 @ [m1]]"
proof -
  let ?d = "(newAppLogDispatcher ''x'')\<lparr>flusher := Selecting, bulkBuffer := replicate 99 m1,
              notified := replicate 99 m1 @ [m1], writer := Handing m1\<rparr>"
  have f: "exec okdb filling (newAppLogDispatcher ''x'') =
      Some ((newAppLogDispatcher ''x'')\<lparr>flusher := Selecting, bulkBuffer := replicate 99 m1,
            notified := replicate 99 m1\<rparr>)"
    by (rule exec_filling) (simp add: okdb_def)
  have e: "exec okdb (filling @ [Enq m1, Act Receive]) (newAppLogDispatcher ''x'') = Some ?d"
    unfolding exec_append f
    by (simp add: apply_event_def sendMsgCh_def step_def newAppLogDispatcher_def)
  have w: "writer ?d = Handing m1" by simp
  obtain d' where s: "step okdb Handoff ?d = Some d'"
    by (simp add: step_def newAppLogDispatcher_def Let_def)
  from size_flush_exactly_at_100th[OF e w s]
  have "insertCalls d' = [replicate 99 m1 @ [m1]]" by (simp add: newAppLogDispatcher_def)
  with e s show ?thesis by (simp add: newAppLogDispatcher_def)
qed

text \<open>
  C4, as stated: every entry the batcher accepts resets the timer. The 100th does not:
  after 99 entries are buffered and the timer has expired, accepting one more entry leaves
  the timer as it was, not armed.
\<close>

theorem hundredth_entry_does_not_reset_timer:
  "\<exists>d d'. exec okdb (filling @ [Act Expire, Enq m1, Act Receive]) (newAppLogDispatcher ''x'') = Some d \<and>
     writer d = Handing m1 \<and> step okdb Handoff d = Some d' \<and>
     bulkBuffer d' = [] \<and> timer d' = timer d \<and> \<not> armed (timer d')"
proof -
  let ?d = "(newAppLogDispatcher ''x'')\<lparr>flusher := Selecting, bulkBuffer := replicate 99 m1,
              notified := replicate 99 m1 @ [m1], writer := Handing m1,
              timer := \<lparr>armed = False, fired = True\<rparr>\<rparr>"
  have f: "exec okdb filling (newAppLogDispatcher ''x'') =
      Some ((newAppLogDispatcher ''x'')\<lparr>flusher := Selecting, bulkBuffer := replicate 99 m1,
            notified := replicate 99 m1\<rparr>)"
    by (rule exec_filling) (simp add: okdb_def)
  have e: "exec okdb (filling @ [Act Expire, Enq m1, Act Receive]) (newAppLogDispatcher ''x'') = Some ?d"
    unfolding exec_append f
    by (simp add: apply_event_def sendMsgCh_def step_def newAppLogDispatcher_def)
  let ?d' = "flush okdb (?d\<lparr>writer := Ranging, bulkBuffer := replicate 99 m1 @ [m1],
             bulkCap := 100\<rparr>)"
  have s: "step okdb Handoff ?d = Some ?d'"
    by (simp add: step_def newAppLogDispatcher_def Let_def)
  have w: "writer ?d = Handing m1" by simp
  have p1: "bulkBuffer ?d' = []" by (simp add: flush_result okdb_def)
  have p2: "timer ?d' = timer ?d" by simp
  have p3: "\<not> armed (timer ?d')" by simp
  from e w s p1 p2 p3 show ?thesis by blast
qed

text \<open>
  C4, amended: in every state a pipeline reaches, accepting an entry that does not fill
  the buffer arms the timer and calls no bulk insert; receiving the timer's expiry empties
  the timer's channel and calls the bulk insert exactly once, with the buffered entries,
  when the buffer is not empty, and not at all when it is empty.
\<close>

theorem timer_reset_unless_full_and_expiry_flushes_once:
  assumes "exec db es (newAppLogDispatcher name) = Some d"
  shows "(step db Handoff d = Some d' \<and> length (bulkBuffer d) \<noteq> 99 \<longrightarrow>
            armed (timer d') \<and> insertCalls d' = insertCalls d) \<and>
         (step db Tick d = Some d'' \<longrightarrow>
            \<not> fired (timer d'') \<and>
            insertCalls d'' = (if bulkBuffer d = [] then insertCalls d
                               else insertCalls d @ [bulkBuffer d]))"
proof -
  have inv: "flusher_inv d" using assms by (rule reachable_inv)
  have 1: "armed (timer d') \<and> insertCalls d' = insertCalls d"
    if st: "step db Handoff d = Some d'" and n: "length (bulkBuffer d) \<noteq> 99"
  proof -
    from st obtain msg where w: "writer d = Handing msg" and f: "flusher d = Selecting"
      by (auto simp: step_Handoff)
    from inv f have cap: "bulkCap d = 100" and len: "length (bulkBuffer d) < 100"
      by (simp_all add: flusher_inv_def)
    from step_Handoff_100(3)[OF st w cap len n] show ?thesis by simp
  qed
  have 2: "\<not> fired (timer d'') \<and>
            insertCalls d'' = (if bulkBuffer d = [] then insertCalls d
                               else insertCalls d @ [bulkBuffer d])"
    if st: "step db Tick d = Some d''"
  proof -
    from st have "d'' = (if bulkBuffer d = [] then d\<lparr>timer := (timer d)\<lparr>fired := False\<rparr>\<rparr>
           else flush db (d\<lparr>timer := (timer d)\<lparr>fired := False\<rparr>\<rparr>))"
      by (simp add: step_Tick)
    then show ?thesis by simp
  qed
  from 1 2 show ?thesis by blast
qed

theorem timer_reset_unless_full_and_expiry_flushes_once_witness:
  "\<exists>d d' e e'. exec okdb [Enq m1, Act Connect, Act Receive] (newAppLogDispatcher ''x'') = Some d \<and>
     step okdb Handoff d = Some d' \<and> armed (timer d') \<and> insertCalls d' = [] \<and>
     exec okdb [Enq m1, Act Connect, Act Receive, Act Handoff, Act Expire]
       (newAppLogDispatcher ''x'') = Some e \<and>
     step okdb Tick e = Some e' \<and> insertCalls e' = [[m1]] \<and> bulkBuffer e' = [] \<and>
     step okdb Tick e' = None \<and> step okdb Expire e' = None"
proof -
  let ?d = "(newAppLogDispatcher ''x'')\<lparr>flusher := Selecting, notified := [m1],
              writer := Handing m1\<rparr>"
  let ?e = "(newAppLogDispatcher ''x'')\<lparr>flusher := Selecting, notified := [m1],
              bulkBuffer := [m1], timer := \<lparr>armed = False, fired = True\<rparr>\<rparr>"
  have d: "exec okdb [Enq m1, Act Connect, Act Receive] (newAppLogDispatcher ''x'') = Some ?d"
    by (simp add: apply_event_def sendMsgCh_def step_def newAppLogDispatcher_def okdb_def)
  obtain d' where sd: "step okdb Handoff ?d = Some d'"
    by (simp add: step_def newAppLogDispatcher_def Let_def)
  have e: "exec okdb [Enq m1, Act Connect, Act Receive, Act Handoff, Act Expire]
       (newAppLogDispatcher ''x'') = Some ?e"
    by (simp add: apply_event_def sendMsgCh_def step_def newAppLogDispatcher_def okdb_def Let_def)
  have se: "step okdb Tick ?e = Some (flush okdb (?e\<lparr>timer := \<lparr>armed = False, fired = False\<rparr>\<rparr>))"
    by (simp add: step_def newAppLogDispatcher_def Let_def)
  have bd: "length (bulkBuffer ?d) \<noteq> 99" by (simp add: newAppLogDispatcher_def)
  from timer_reset_unless_full_and_expiry_flushes_once[OF d, of d'] sd bd
  have 1: "armed (timer d') \<and> insertCalls d' = []" by (simp add: newAppLogDispatcher_def)
  from timer_reset_unless_full_and_expiry_flushes_once[OF e, of _ "flush okdb (?e\<lparr>timer := \<lparr>armed = False, fired = False\<rparr>\<rparr>)"] se
  have 2: "insertCalls (flush okdb (?e\<lparr>timer := \<lparr>armed = False, fired = False\<rparr>\<rparr>)) = [[m1]]"
    by (simp add: newAppLogDispatcher_def)
  have 3: "bulkBuffer (flush okdb (?e\<lparr>timer := \<lparr>armed = False, fired = False\<rparr>\<rparr>)) = []"
    by (simp add: flush_result okdb_def)
  have 4: "step okdb Tick (flush okdb (?e\<lparr>timer := \<lparr>armed = False, fired = False\<rparr>\<rparr>)) = None"
    "step okdb Expire (flush okdb (?e\<lparr>timer := \<lparr>armed = False, fired = False\<rparr>\<rparr>)) = None"
    by (simp_all add: step_def)
  from d sd 1 e se 2 3 4 show ?thesis by metis
qed

section \<open>Every entry is accounted for\<close>

lemma accounted_flush: "accounted (flush db d) = accounted d"
  by (cases "Insert db (inserted d) (bulkBuffer d)")
     (simp_all add: accounted_def flush_result)

lemma step_accounted:
  assumes "step db a d = Some d'"
  shows "accounted d' = accounted d"
proof (cases a)
  case Connect
  with assms have "d' = d\<lparr>flusher := (case LogConn db of None \<Rightarrow> Selecting | Some err \<Rightarrow> Offering err)\<rparr>"
    by (simp add: step_Connect)
  then show ?thesis by (simp add: accounted_def)
next
  case Receive
  with assms have "writer d = Ranging" "msgCh d \<noteq> []"
    "d' = d\<lparr>msgCh := tl (msgCh d), notified := notified d @ [hd (msgCh d)],
            writer := Handing (hd (msgCh d))\<rparr>"
    by (simp_all add: step_Receive)
  then show ?thesis by (simp add: accounted_def)
next
  case Exit
  with assms have "writer d = Ranging" "d' = d\<lparr>writer := WriterReturned\<rparr>"
    by (simp_all add: step_Exit)
  then show ?thesis by (simp add: accounted_def)
next
  case Expire
  with assms have "d' = d\<lparr>timer := \<lparr>armed = False, fired = True\<rparr>\<rparr>" by (simp add: step_Expire)
  then show ?thesis by (simp add: accounted_def)
next
  case Done
  with assms have "d' = d\<lparr>flusher := FlusherReturned\<rparr>" by (simp add: step_Done)
  then show ?thesis by (simp add: accounted_def)
next
  case Tick
  let ?d1 = "d\<lparr>timer := (timer d)\<lparr>fired := False\<rparr>\<rparr>"
  from assms Tick have "d' = (if bulkBuffer d = [] then ?d1 else flush db ?d1)"
    by (simp add: step_Tick)
  moreover have "accounted ?d1 = accounted d" by (simp add: accounted_def)
  ultimately show ?thesis by (simp add: accounted_flush)
next
  case Handoff
  with assms obtain msg d1 where w: "writer d = Handing msg"
    and d1: "d1 = d\<lparr>writer := Ranging, bulkBuffer := bulkBuffer d @ [msg],
                     bulkCap := (if length (bulkBuffer d) < bulkCap d then bulkCap d
                                 else 2 * bulkCap d + 1)\<rparr>"
    and d': "d' = (if length (bulkBuffer d1) = bulkCap d1 then flush db d1
                   else d1\<lparr>timer := (timer d1)\<lparr>armed := True\<rparr>\<rparr>)"
    by (auto simp: step_Handoff Let_def)
  from w d1 have "accounted d1 = accounted d" by (simp add: accounted_def)
  moreover have "accounted (d1\<lparr>timer := (timer d1)\<lparr>armed := True\<rparr>\<rparr>) = accounted d1"
    by (simp add: accounted_def)
  ultimately show ?thesis using d' by (simp add: accounted_flush)
qed

lemma apply_event_accounted:
  assumes "apply_event db e d = Some d'"
  shows "accounted d' = accounted d @ enqueued [e]"
proof (cases e)
  case (Enq msg)
  with assms have "d' = d\<lparr>msgCh := msgCh d @ [msg]\<rparr>"
    by (simp add: apply_event_def sendMsgCh_def split: if_splits)
  with Enq show ?thesis by (simp add: accounted_def)
next
  case CloseCh
  with assms have "d' = d\<lparr>msgCh_closed := True\<rparr>"
    by (simp add: apply_event_def closeMsgCh_def split: if_splits)
  with CloseCh show ?thesis by (simp add: accounted_def)
next
  case (Act a)
  with assms show ?thesis using step_accounted[of db a d d'] by (simp add: apply_event_def)
qed

lemma enqueued_Cons: "enqueued (e # es) = enqueued [e] @ enqueued es"
  by (cases e) simp_all

text \<open>
  In every run, whatever the storage does: the stored batches, then the buffer, then the
  entry in the hand-off, then the queue are the entries sent, in the order sent.
\<close>

lemma exec_accounted:
  "exec db es d = Some d' \<Longrightarrow> accounted d' = accounted d @ enqueued es"
proof (induction es arbitrary: d)
  case Nil
  then show ?case by simp
next
  case (Cons e es)
  then obtain d1 where 1: "apply_event db e d = Some d1" and 2: "exec db es d1 = Some d'"
    by (auto split: option.splits)
  from Cons.IH[OF 2] apply_event_accounted[OF 1] show ?case
    by (subst enqueued_Cons) simp
qed

lemma pipeline_accounts_for_every_entry:
  assumes "exec db es (newAppLogDispatcher name) = Some d"
  shows "concat (inserted d) @ bulkBuffer d @ handing (writer d) @ msgCh d = enqueued es"
  using exec_accounted[OF assms] by (simp add: accounted_def newAppLogDispatcher_def)

section \<open>Shutdown\<close>

lemma step_shutdown:
  assumes "step db a d = Some d'"
    and "writer d = WriterReturned \<longrightarrow> msgCh d = [] \<and> msgCh_closed d"
    and "flusher d = FlusherReturned \<longrightarrow> writer d = WriterReturned"
  shows "(writer d' = WriterReturned \<longrightarrow> msgCh d' = [] \<and> msgCh_closed d') \<and>
         (flusher d' = FlusherReturned \<longrightarrow> writer d' = WriterReturned)"
proof (cases a)
  case Connect
  with assms(1) have "flusher d = Connecting"
    "d' = d\<lparr>flusher := (case LogConn db of None \<Rightarrow> Selecting | Some err \<Rightarrow> Offering err)\<rparr>"
    by (simp_all add: step_Connect)
  with assms(2,3) show ?thesis by (cases "LogConn db") simp_all
next
  case Receive
  with assms(1) have "writer d = Ranging"
    "d' = d\<lparr>msgCh := tl (msgCh d), notified := notified d @ [hd (msgCh d)],
            writer := Handing (hd (msgCh d))\<rparr>"
    by (simp_all add: step_Receive)
  with assms(2,3) show ?thesis by simp
next
  case Exit
  with assms(1) have "writer d = Ranging" "msgCh d = []" "msgCh_closed d"
    "d' = d\<lparr>writer := WriterReturned\<rparr>"
    by (simp_all add: step_Exit)
  with assms(2,3) show ?thesis by simp
next
  case Expire
  with assms(1) have "d' = d\<lparr>timer := \<lparr>armed = False, fired = True\<rparr>\<rparr>" by (simp add: step_Expire)
  with assms(2,3) show ?thesis by simp
next
  case Done
  with assms(1) have "writer d = WriterReturned" "d' = d\<lparr>flusher := FlusherReturned\<rparr>"
    by (simp_all add: step_Done)
  with assms(2,3) show ?thesis by simp
next
  case Tick
  let ?d1 = "d\<lparr>timer := (timer d)\<lparr>fired := False\<rparr>\<rparr>"
  from assms(1) Tick have f: "flusher d = Selecting"
    and d': "d' = (if bulkBuffer d = [] then ?d1 else flush db ?d1)"
    by (simp_all add: step_Tick)
  have "flusher (flush db ?d1) \<noteq> FlusherReturned"
    using f by (cases "Insert db (inserted ?d1) (bulkBuffer ?d1)") (simp_all add: flush_result)
  with d' f assms(2,3) show ?thesis by (cases "bulkBuffer d = []") simp_all
next
  case Handoff
  with assms(1) obtain msg d1 where w: "writer d = Handing msg" and f: "flusher d = Selecting"
    and d1: "d1 = d\<lparr>writer := Ranging, bulkBuffer := bulkBuffer d @ [msg],
                     bulkCap := (if length (bulkBuffer d) < bulkCap d then bulkCap d
                                 else 2 * bulkCap d + 1)\<rparr>"
    and d': "d' = (if length (bulkBuffer d1) = bulkCap d1 then flush db d1
                   else d1\<lparr>timer := (timer d1)\<lparr>armed := True\<rparr>\<rparr>)"
    by (auto simp: step_Handoff Let_def)
  have "flusher (flush db d1) \<noteq> FlusherReturned"
    using f d1 by (cases "Insert db (inserted d1) (bulkBuffer d1)") (simp_all add: flush_result)
  moreover have "writer d1 = Ranging" "flusher d1 = Selecting" using d1 f by simp_all
  ultimately show ?thesis using d' by (cases "length (bulkBuffer d1) = bulkCap d1") simp_all
qed

lemma apply_event_shutdown:
  assumes "apply_event db e d = Some d'"
    and "writer d = WriterReturned \<longrightarrow> msgCh d = [] \<and> msgCh_closed d"
    and "flusher d = FlusherReturned \<longrightarrow> writer d = WriterReturned"
  shows "(writer d' = WriterReturned \<longrightarrow> msgCh d' = [] \<and> msgCh_closed d') \<and>
         (flusher d' = FlusherReturned \<longrightarrow> writer d' = WriterReturned)"
proof (cases e)
  case (Enq msg)
  with assms(1) have "\<not> msgCh_closed d" "d' = d\<lparr>msgCh := msgCh d @ [msg]\<rparr>"
    by (simp_all add: apply_event_def sendMsgCh_def split: if_splits)
  with assms(2,3) show ?thesis by auto
next
  case CloseCh
  with assms(1) have "d' = d\<lparr>msgCh_closed := True\<rparr>"
    by (simp add: apply_event_def closeMsgCh_def split: if_splits)
  with assms(2,3) show ?thesis by simp
next
  case (Act a)
  with assms(1) have "step db a d = Some d'" by (simp add: apply_event_def)
  from step_shutdown[OF this assms(2,3)] show ?thesis .
qed

lemma exec_shutdown:
  "exec db es d = Some d' \<Longrightarrow>
   (writer d = WriterReturned \<longrightarrow> msgCh d = [] \<and> msgCh_closed d) \<Longrightarrow>
   (flusher d = FlusherReturned \<longrightarrow> writer d = WriterReturned) \<Longrightarrow>
   (writer d' = WriterReturned \<longrightarrow> msgCh d' = [] \<and> msgCh_closed d') \<and>
   (flusher d' = FlusherReturned \<longrightarrow> writer d' = WriterReturned)"
proof (induction es arbitrary: d)
  case Nil
  then show ?case by simp
next
  case (Cons e es)
  then obtain d1 where 1: "apply_event db e d = Some d1" and 2: "exec db es d1 = Some d'"
    by (auto split: option.splits)
  from apply_event_shutdown[OF 1 Cons.prems(2,3)] Cons.IH[OF 2] show ?case by blast
qed

text \<open>
  When the flusher has returned on \<^verbatim>\<open>done\<close> (the shutdown \<^verbatim>\<open>Stop\<close> reports as nil), the
  entries sent are the stored batches followed by what was still in the buffer: the
  buffer's entries are the ones not stored.
\<close>

lemma clean_shutdown_stores_all_but_the_buffer:
  assumes "exec db es (newAppLogDispatcher name) = Some d" and "flusher d = FlusherReturned"
  shows "concat (inserted d) @ bulkBuffer d = enqueued es"
proof -
  have "(writer d = WriterReturned \<longrightarrow> msgCh d = [] \<and> msgCh_closed d) \<and>
        (flusher d = FlusherReturned \<longrightarrow> writer d = WriterReturned)"
    using assms(1) by (rule exec_shutdown) (simp_all add: newAppLogDispatcher_def)
  with assms(2) have "writer d = WriterReturned" "msgCh d = []" by simp_all
  with pipeline_accounts_for_every_entry[OF assms(1)] show ?thesis by simp
qed

text \<open>
  C1 at a concrete input: one entry is sent to a fresh dispatcher whose storage works, the
  pipeline takes it up to the batcher's buffer, and \<^verbatim>\<open>Stop\<close> follows before the timer
  expires. \<^verbatim>\<open>Stop\<close> returns nil, the bulk insert was never called, and the entry is still
  in the buffer of the stopped pipeline.
\<close>

theorem Stop_returns_nil_with_entry_unflushed:
  "\<exists>D1 D2 d.
     Send okdb [] SendMsg m1 NewlogDispatcher = Some (Returns (None, D1)) \<and>
     Stop okdb [''x''] (\<lambda>name. [Connect, Receive, Handoff, Exit, Done]) D1 =
       Some (Returns (None, D2)) \<and>
     dispatchers D2 = Map.empty \<and> retired D2 = [d] \<and>
     insertCalls d = [] \<and> inserted d = [] \<and> bulkBuffer d = [m1] \<and> flusher d = FlusherReturned"
proof -
  let ?p = "(newAppLogDispatcher ''x'')\<lparr>msgCh := [m1]\<rparr>"
  let ?D1 = "NewlogDispatcher\<lparr>dispatchers := (dispatchers NewlogDispatcher)(''x'' \<mapsto> ?p)\<rparr>"
  let ?d = "(newAppLogDispatcher ''x'')\<lparr>msgCh_closed := True, writer := WriterReturned,
              flusher := FlusherReturned, bulkBuffer := [m1], notified := [m1]\<rparr>"
  let ?D2 = "\<lparr>dispatchers = Map.empty, retired = [?d]\<rparr>"
  have a: "AppName m1 = ''x''" by (simp add: m1_def sample_entry_def)
  have 1: "Send okdb [] SendMsg m1 NewlogDispatcher = Some (Returns (None, ?D1))"
    by (simp add: Send_def a NewlogDispatcher_def sendMsgCh_def newAppLogDispatcher_def Let_def)
  have s: "stopOne okdb [Connect, Receive, Handoff, Exit, Done] ?p = Some (Returns (None, ?d))"
    by (simp add: stopOne_def closeMsgCh_def recvErrCh_def step_def okdb_def
          newAppLogDispatcher_def Let_def)
  have 2: "Stop okdb [''x''] (\<lambda>name. [Connect, Receive, Handoff, Exit, Done]) ?D1 =
       Some (Returns (None, ?D2))"
    by (simp add: Stop_def s addErr_def NewlogDispatcher_def)
  have 3: "insertCalls ?d = [] \<and> inserted ?d = [] \<and> bulkBuffer ?d = [m1] \<and> flusher ?d = FlusherReturned"
    by (simp add: newAppLogDispatcher_def)
  from 1 2 3 show ?thesis
    by (intro exI[of _ ?D1] exI[of _ ?D2] exI[of _ ?d]) simp
qed

section \<open>A pipeline whose storage connection fails\<close>









section \<open>Send on a failed pipeline\<close>

lemma step_offering:
  assumes "step db a d = Some d'" and "flusher d = Offering err" and "\<not> msgCh_closed d"
  shows "flusher d' = Offering err \<and> \<not> msgCh_closed d' \<and> length (msgCh d') \<le> length (msgCh d) \<and>
         inserted d' = inserted d \<and> insertCalls d' = insertCalls d"
proof (cases a)
  case Connect
  with assms(1) have "flusher d = Connecting" by (simp add: step_Connect)
  with assms(2) show ?thesis by simp
next
  case Receive
  with assms(1) have "d' = d\<lparr>msgCh := tl (msgCh d), notified := notified d @ [hd (msgCh d)],
            writer := Handing (hd (msgCh d))\<rparr>"
    by (simp add: step_Receive)
  with assms(2,3) show ?thesis by simp
next
  case Exit
  with assms(1) have "msgCh_closed d" by (simp add: step_Exit)
  with assms(3) show ?thesis by simp
next
  case Expire
  with assms(1) have "d' = d\<lparr>timer := \<lparr>armed = False, fired = True\<rparr>\<rparr>" by (simp add: step_Expire)
  with assms(2,3) show ?thesis by simp
next
  case Done
  with assms(1) have "flusher d = Selecting" by (simp add: step_Done)
  with assms(2) show ?thesis by simp
next
  case Tick
  with assms(1) have "flusher d = Selecting" by (simp add: step_Tick)
  with assms(2) show ?thesis by simp
next
  case Handoff
  with assms(1) have "flusher d = Selecting" by (auto simp: step_Handoff)
  with assms(2) show ?thesis by simp
qed

lemma run_offering:
  "run db sched d = Some d' \<Longrightarrow> flusher d = Offering err \<Longrightarrow> \<not> msgCh_closed d \<Longrightarrow>
   flusher d' = Offering err \<and> \<not> msgCh_closed d' \<and> length (msgCh d') \<le> length (msgCh d) \<and>
   inserted d' = inserted d \<and> insertCalls d' = insertCalls d"
proof (induction sched arbitrary: d)
  case Nil
  then show ?case by simp
next
  case (Cons a sched)
  then obtain d1 where 1: "step db a d = Some d1" and 2: "run db sched d1 = Some d'"
    by (auto split: option.splits)
  from step_offering[OF 1 Cons.prems(2,3)]
  have i: "flusher d1 = Offering err" "\<not> msgCh_closed d1" "length (msgCh d1) \<le> length (msgCh d)"
    "inserted d1 = inserted d" "insertCalls d1 = insertCalls d" by simp_all
  from Cons.IH[OF 2 i(1,2)] i show ?case by simp
qed

text \<open>
  C2, as stated: after a persistence failure the next \<^verbatim>\<open>Send\<close> returns the stored error or
  starts a brand-new pipeline. Here the first entry's bulk insert fails (the pipeline offers
  the error on \<^verbatim>\<open>errCh\<close>), and the next \<^verbatim>\<open>Send\<close>, whose \<^verbatim>\<open>select\<close> takes the send on
  \<^verbatim>\<open>msgCh\<close>, returns nil and leaves the failed pipeline in the table with the new entry in its
  queue: no error is returned and no pipeline is created.
\<close>

theorem Send_after_failure_may_enqueue_on_failed_pipeline:
  "\<exists>D1 D2 D3.
     Send faildb [] SendMsg m1 NewlogDispatcher = Some (Returns (None, D1)) \<and>
     background faildb ''x'' [Connect, Receive, Handoff, Expire, Tick] D1 = Some D2 \<and>
     dispatchers D2 ''x'' = Some failed_x \<and> flusher failed_x = Offering ''insert failed'' \<and>
     insertCalls failed_x = [[m1]] \<and> inserted failed_x = [] \<and>
     Send faildb [] SendMsg m1 D2 = Some (Returns (None, D3)) \<and>
     dispatchers D3 ''x'' = Some (failed_x\<lparr>msgCh := [m1]\<rparr>) \<and> retired D3 = []"
proof -
  let ?p = "(newAppLogDispatcher ''x'')\<lparr>msgCh := [m1]\<rparr>"
  let ?D1 = "\<lparr>dispatchers = [''x'' \<mapsto> ?p], retired = []\<rparr>"
  let ?D2 = "\<lparr>dispatchers = [''x'' \<mapsto> failed_x], retired = []\<rparr>"
  let ?D3 = "\<lparr>dispatchers = [''x'' \<mapsto> failed_x\<lparr>msgCh := [m1]\<rparr>], retired = []\<rparr>"
  have a: "AppName m1 = ''x''" by (simp add: m1_def sample_entry_def)
  have 1: "Send faildb [] SendMsg m1 NewlogDispatcher = Some (Returns (None, ?D1))"
    by (simp add: Send_def a NewlogDispatcher_def sendMsgCh_def newAppLogDispatcher_def Let_def)
  have 2: "background faildb ''x'' [Connect, Receive, Handoff, Expire, Tick] ?D1 = Some ?D2"
    by (simp add: background_def step_def flush_def faildb_def newAppLogDispatcher_def Let_def
          failed_x_def)
  have 3: "Send faildb [] SendMsg m1 ?D2 = Some (Returns (None, ?D3))"
    by (simp add: Send_def a sendMsgCh_def newAppLogDispatcher_def Let_def failed_x_def)
  have 4: "dispatchers ?D2 ''x'' = Some failed_x" "flusher failed_x = Offering ''insert failed''"
    "insertCalls failed_x = [[m1]]" "inserted failed_x = []"
    "dispatchers ?D3 ''x'' = Some (failed_x\<lparr>msgCh := [m1]\<rparr>)" "retired ?D3 = []"
    by (simp_all add: newAppLogDispatcher_def failed_x_def)
  from 1 2 3 4 show ?thesis by blast
qed

text \<open>
  C2, amended: with the failed pipeline of an application in the table, offering its
  stored error, a \<^verbatim>\<open>Send\<close> for that application has two outcomes and no other. Taking
  the receive from \<^verbatim>\<open>errCh\<close> it returns exactly that error, deletes the pipeline from the
  table and retires it; the following \<^verbatim>\<open>Send\<close> then creates a brand-new pipeline holding
  only its own entry. Taking the send on \<^verbatim>\<open>msgCh\<close>, which can proceed only while the queue
  holds fewer than 10000 entries, it returns nil and the failed pipeline stays in the table,
  still offering the error and storing nothing more.
\<close>

theorem Send_on_failed_pipeline:
  assumes "dispatchers D name = Some d" and "flusher d = Offering err"
    and "\<not> msgCh_closed d" and "AppName msg = name" and "AppName msg' = name"
  shows "(\<exists>D'. Send db [] RecvErr msg D = Some (Returns (Some err, D')) \<and>
            dispatchers D' = (dispatchers D)(name := None) \<and>
            retired D' = retired D @ [d\<lparr>flusher := FlusherReturned, msgCh_closed := True\<rparr>] \<and>
            Send db [] SendMsg msg' D' =
              Some (Returns (None, D'\<lparr>dispatchers := (dispatchers D')
                       (name \<mapsto> (newAppLogDispatcher name)\<lparr>msgCh := [msg']\<rparr>)\<rparr>))) \<and>
         (\<forall>sched r D'. Send db sched RecvErr msg D = Some (Returns (r, D')) \<longrightarrow>
            r = Some err \<and> dispatchers D' name = None) \<and>
         (\<forall>sched r D'. Send db sched SendMsg msg D = Some (Returns (r, D')) \<longrightarrow>
            r = None \<and> retired D' = retired D \<and>
            (\<exists>d'. dispatchers D' name = Some d' \<and> flusher d' = Offering err \<and>
                  inserted d' = inserted d \<and> msgCh d' \<noteq> [] \<and> last (msgCh d') = msg)) \<and>
         (length (msgCh d) \<ge> 10000 \<longrightarrow> Send db [] SendMsg msg D = None)"
proof -
  let ?d' = "d\<lparr>flusher := FlusherReturned, msgCh_closed := True\<rparr>"
  let ?D' = "D\<lparr>dispatchers := (dispatchers D)(name := None), retired := retired D @ [?d']\<rparr>"
  have 1: "Send db [] RecvErr msg D = Some (Returns (Some err, ?D'))"
    using assms(1-4) by (simp add: Send_def Let_def recvErrCh_def closeMsgCh_def)
  have 2: "Send db [] SendMsg msg' ?D' =
      Some (Returns (None, ?D'\<lparr>dispatchers := (dispatchers ?D')
                       (name \<mapsto> (newAppLogDispatcher name)\<lparr>msgCh := [msg']\<rparr>)\<rparr>))"
    using assms(5) by (simp add: Send_def Let_def sendMsgCh_def newAppLogDispatcher_def)
  have a: "\<exists>D'. Send db [] RecvErr msg D = Some (Returns (Some err, D')) \<and>
            dispatchers D' = (dispatchers D)(name := None) \<and>
            retired D' = retired D @ [?d'] \<and>
            Send db [] SendMsg msg' D' =
              Some (Returns (None, D'\<lparr>dispatchers := (dispatchers D')
                       (name \<mapsto> (newAppLogDispatcher name)\<lparr>msgCh := [msg']\<rparr>)\<rparr>))"
    using 1 2 by (intro exI[of _ ?D']) simp
  have b: "r = Some err \<and> dispatchers D' name = None"
    if s: "Send db sched RecvErr msg D = Some (Returns (r, D'))" for sched r D'
  proof -
    from s assms(1,4) obtain d1 d2 d3 where r1: "run db sched d = Some d1"
      and r2: "recvErrCh d1 = Some (r, d2)" and r3: "closeMsgCh d2 = Returns d3"
      and r4: "D' = D\<lparr>dispatchers := (dispatchers D)(name := None), retired := retired D @ [d3]\<rparr>"
      by (auto simp: Send_def Let_def split: option.splits call.splits)
    from run_offering[OF r1 assms(2,3)] have "flusher d1 = Offering err" by simp
    with r2 have "r = Some err" by (simp add: recvErrCh_def)
    with r4 show ?thesis by simp
  qed
  have c: "r = None \<and> retired D' = retired D \<and>
            (\<exists>d'. dispatchers D' name = Some d' \<and> flusher d' = Offering err \<and>
                  inserted d' = inserted d \<and> msgCh d' \<noteq> [] \<and> last (msgCh d') = msg)"
    if s: "Send db sched SendMsg msg D = Some (Returns (r, D'))" for sched r D'
  proof -
    from s assms(1,4) obtain d1 d2 where r1: "run db sched d = Some d1"
      and r2: "sendMsgCh msg d1 = Some (Returns d2)"
      and r3: "r = None" and r4: "D' = D\<lparr>dispatchers := (dispatchers D)(name \<mapsto> d2)\<rparr>"
      by (auto simp: Send_def Let_def split: option.splits call.splits)
    from r2 have d2: "d2 = d1\<lparr>msgCh := msgCh d1 @ [msg]\<rparr>"
      by (simp add: sendMsgCh_def split: if_splits)
    from run_offering[OF r1 assms(2,3)] d2
    have "flusher d2 = Offering err" "inserted d2 = inserted d" "msgCh d2 \<noteq> []" "last (msgCh d2) = msg"
      by simp_all
    with r3 r4 show ?thesis by simp
  qed
  have e: "Send db [] SendMsg msg D = None" if "length (msgCh d) \<ge> 10000"
    using that assms(1,3,4) by (simp add: Send_def Let_def sendMsgCh_def)
  from a b c e show ?thesis by blast
qed


theorem Send_on_failed_pipeline_witness:
  "\<exists>D'. Send faildb [] RecvErr m1 \<lparr>dispatchers = [''x'' \<mapsto> failed_x], retired = []\<rparr> =
          Some (Returns (Some ''insert failed'', D')) \<and>
        dispatchers D' = Map.empty \<and>
        retired D' = [failed_x\<lparr>flusher := FlusherReturned, msgCh_closed := True\<rparr>] \<and>
        Send faildb [] SendMsg m1 D' =
          Some (Returns (None, D'\<lparr>dispatchers :=
                  [''x'' \<mapsto> (newAppLogDispatcher ''x'')\<lparr>msgCh := [m1]\<rparr>]\<rparr>))"
proof -
  let ?D = "\<lparr>dispatchers = [''x'' \<mapsto> failed_x], retired = []\<rparr>"
  have a: "AppName m1 = ''x''" by (simp add: m1_def sample_entry_def)
  have 1: "dispatchers ?D ''x'' = Some failed_x" by simp
  have 2: "flusher failed_x = Offering ''insert failed''" "\<not> msgCh_closed failed_x"
    by (simp_all add: failed_x_def newAppLogDispatcher_def)
  from Send_on_failed_pipeline[OF 1 2 a a, of faildb]
  obtain D' where "Send faildb [] RecvErr m1 ?D = Some (Returns (Some ''insert failed'', D'))"
    and "dispatchers D' = (dispatchers ?D)(''x'' := None)"
    and "retired D' = retired ?D @ [failed_x\<lparr>flusher := FlusherReturned, msgCh_closed := True\<rparr>]"
    and "Send faildb [] SendMsg m1 D' =
          Some (Returns (None, D'\<lparr>dispatchers := (dispatchers D')
                  (''x'' \<mapsto> (newAppLogDispatcher ''x'')\<lparr>msgCh := [m1]\<rparr>)\<rparr>))"
    by blast
  then show ?thesis by (intro exI[of _ D']) simp
qed

section \<open>Stop\<close>

lemma addErr_simps [simp]:
  "addErr finalErr None = finalErr"
  "addErr None (Some e) = Some e"
  "addErr (Some f) (Some e) = Some (f @ '', '' @ e)"
  by (simp_all add: addErr_def)

lemma foldl_addErr_Some:
  "foldl addErr (Some f) errs = Some (foldl (\<lambda>f e'. f @ '', '' @ e') f (List.map_filter (\<lambda>e. e) errs))"
proof (induction errs arbitrary: f)
  case Nil
  then show ?case by (simp add: List.map_filter_simps)
next
  case (Cons e errs)
  then show ?case by (cases e) (simp_all add: List.map_filter_simps)
qed

lemma foldl_addErr_None: "foldl addErr None errs = joinErrs (List.map_filter (\<lambda>e. e) errs)"
proof (induction errs)
  case Nil
  then show ?case by (simp add: List.map_filter_simps)
next
  case (Cons e errs)
  then show ?case
    by (cases e) (simp_all add: List.map_filter_simps foldl_addErr_Some)
qed

lemma joinErrs_None: "joinErrs es = None \<longleftrightarrow> es = []"
  by (cases es) simp_all

lemma map_filter_id_Nil: "List.map_filter (\<lambda>e. e) errs = [] \<longleftrightarrow> (\<forall>e \<in> set errs. e = None)"
  by (induction errs) (auto simp: List.map_filter_simps split: option.splits)

lemma StopLoop_results:
  assumes "StopLoop db scheds order finalErr D = Some (Returns (r, D'))"
    and "distinct order" and "set order \<subseteq> dom (dispatchers D)"
  shows "\<exists>results.
           list_all2 (\<lambda>name res. stopOne db (scheds name) (the (dispatchers D name)) = Some (Returns res))
             order results \<and>
           r = foldl addErr finalErr (map fst results) \<and>
           dispatchers D' = (\<lambda>k. if k \<in> set order then None else dispatchers D k) \<and>
           retired D' = retired D @ map snd results"
  using assms
proof (induction order arbitrary: finalErr D)
  case Nil
  then show ?case by simp
next
  case (Cons name rest)
  from Cons.prems(3) obtain appD where appD: "dispatchers D name = Some appD" by auto
  let ?D1 = "\<lambda>appD3. D\<lparr>dispatchers := (dispatchers D)(name := None), retired := retired D @ [appD3]\<rparr>"
  from Cons.prems(1) appD obtain err appD3 where
    one: "stopOne db (scheds name) appD = Some (Returns (err, appD3))"
    and rest: "StopLoop db scheds rest (addErr finalErr err) (?D1 appD3) = Some (Returns (r, D'))"
    by (auto split: option.splits call.splits)
  from Cons.prems(2) have dr: "distinct rest" and nr: "name \<notin> set rest" by simp_all
  from Cons.prems(3) nr have sub: "set rest \<subseteq> dom (dispatchers (?D1 appD3))" by auto
  from Cons.IH[OF rest dr sub] obtain results where
    l: "list_all2 (\<lambda>n res. stopOne db (scheds n) (the (dispatchers (?D1 appD3) n)) = Some (Returns res))
          rest results"
    and r: "r = foldl addErr (addErr finalErr err) (map fst results)"
    and d: "dispatchers D' = (\<lambda>k. if k \<in> set rest then None else dispatchers (?D1 appD3) k)"
    and t: "retired D' = retired (?D1 appD3) @ map snd results"
    by blast
  have l': "list_all2 (\<lambda>n res. stopOne db (scheds n) (the (dispatchers D n)) = Some (Returns res))
          rest results"
  proof (rule list.rel_mono_strong[OF l])
    fix n res assume "n \<in> set rest"
      and "stopOne db (scheds n) (the (dispatchers (?D1 appD3) n)) = Some (Returns res)"
    moreover from this nr have "n \<noteq> name" by auto
    ultimately show "stopOne db (scheds n) (the (dispatchers D n)) = Some (Returns res)" by simp
  qed
  let ?results = "(err, appD3) # results"
  have "list_all2 (\<lambda>n res. stopOne db (scheds n) (the (dispatchers D n)) = Some (Returns res))
          (name # rest) ?results"
    using l' one appD by simp
  moreover have "r = foldl addErr finalErr (map fst ?results)" using r by simp
  moreover have "dispatchers D' = (\<lambda>k. if k \<in> set (name # rest) then None else dispatchers D k)"
    using d by auto
  moreover have "retired D' = retired D @ map snd ?results" using t by simp
  ultimately show ?case by blast
qed

text \<open>
  C5: when \<^verbatim>\<open>Stop\<close> returns, every pipeline of the table has been stopped (its queue
  closed, its final status received) and moved out of the table, which is empty; the value
  returned is the non-nil statuses, in the order the pipelines were visited, joined into
  one error; it is nil exactly when every pipeline's status is nil.
\<close>

theorem Stop_combines_every_error:
  assumes "Stop db order scheds D = Some (Returns (r, D'))"
    and "distinct order" and "set order = dom (dispatchers D)"
  shows "\<exists>results.
           list_all2 (\<lambda>name res. stopOne db (scheds name) (the (dispatchers D name)) = Some (Returns res))
             order results \<and>
           dispatchers D' = Map.empty \<and> retired D' = retired D @ map snd results \<and>
           r = joinErrs (List.map_filter (\<lambda>e. e) (map fst results)) \<and>
           (r = None \<longleftrightarrow> (\<forall>res \<in> set results. fst res = None))"
proof -
  from assms(1) have s: "StopLoop db scheds order None D = Some (Returns (r, D'))"
    by (simp add: Stop_def)
  from assms(3) have sub: "set order \<subseteq> dom (dispatchers D)" by simp
  from StopLoop_results[OF s assms(2) sub] obtain results where
    l: "list_all2 (\<lambda>name res. stopOne db (scheds name) (the (dispatchers D name)) = Some (Returns res))
             order results"
    and r: "r = foldl addErr None (map fst results)"
    and d: "dispatchers D' = (\<lambda>k. if k \<in> set order then None else dispatchers D k)"
    and t: "retired D' = retired D @ map snd results"
    by blast
  have e: "dispatchers D' = Map.empty"
  proof
    fix k show "dispatchers D' k = None"
    proof (cases "k \<in> set order")
      case True
      with d show ?thesis by simp
    next
      case False
      with assms(3) have "dispatchers D k = None" by (simp add: domIff)
      with d False show ?thesis by simp
    qed
  qed
  have j: "r = joinErrs (List.map_filter (\<lambda>e. e) (map fst results))"
    using r by (simp add: foldl_addErr_None)
  have "r = None \<longleftrightarrow> (\<forall>e \<in> set (map fst results). e = None)"
    using j by (simp only: joinErrs_None map_filter_id_Nil)
  then have n: "r = None \<longleftrightarrow> (\<forall>res \<in> set results. fst res = None)"
    by simp
  show ?thesis by (intro exI[of _ results] conjI l e t j n)
qed


theorem Stop_combines_every_error_witness:
  "\<exists>D' dx dy.
     Stop xfaildb [''x'', ''y''] drain_y
       \<lparr>dispatchers = [''x'' \<mapsto> failed_x, ''y'' \<mapsto> (newAppLogDispatcher ''y'')\<lparr>msgCh := [m2]\<rparr>],
        retired = []\<rparr> = Some (Returns (Some ''insert failed'', D')) \<and>
     dispatchers D' = Map.empty \<and> retired D' = [dx, dy] \<and>
     inserted dx = [] \<and> inserted dy = [[m2]]"
proof -
  let ?py = "(newAppLogDispatcher ''y'')\<lparr>msgCh := [m2]\<rparr>"
  let ?D = "\<lparr>dispatchers = [''x'' \<mapsto> failed_x, ''y'' \<mapsto> ?py], retired = []\<rparr>"
  let ?dx = "failed_x\<lparr>msgCh_closed := True, flusher := FlusherReturned\<rparr>"
  let ?dy = "(newAppLogDispatcher ''y'')\<lparr>msgCh_closed := True, writer := WriterReturned,
               flusher := FlusherReturned, notified := [m2], insertCalls := [[m2]],
               inserted := [[m2]], timer := \<lparr>armed = False, fired = False\<rparr>\<rparr>"
  have a: "AppName m2 = ''y''" by (simp add: m2_def)
  have x: "stopOne xfaildb (drain_y ''x'') failed_x = Some (Returns (Some ''insert failed'', ?dx))"
    by (simp add: stopOne_def closeMsgCh_def recvErrCh_def drain_y_def failed_x_def
          newAppLogDispatcher_def)
  have y: "stopOne xfaildb (drain_y ''y'') ?py = Some (Returns (None, ?dy))"
    by (simp add: stopOne_def closeMsgCh_def recvErrCh_def drain_y_def step_def flush_def
          xfaildb_def a newAppLogDispatcher_def Let_def)
  let ?D' = "\<lparr>dispatchers = [''x'' \<mapsto> failed_x, ''y'' \<mapsto> ?py](''x'' := None, ''y'' := None),
             retired = [?dx, ?dy]\<rparr>"
  have s: "Stop xfaildb [''x'', ''y''] drain_y ?D = Some (Returns (Some ''insert failed'', ?D'))"
    by (simp add: Stop_def x y)
  have o: "distinct [''x'', ''y'']" "set [''x'', ''y''] = dom (dispatchers ?D)" by auto
  from Stop_combines_every_error[OF s o]
  have e: "dispatchers ?D' = Map.empty" by blast
  have i: "inserted ?dx = []" "inserted ?dy = [[m2]]"
    by (simp_all add: failed_x_def newAppLogDispatcher_def)
  have t: "retired ?D' = [?dx, ?dy]" by simp
  show ?thesis by (intro exI[of _ ?D'] exI[of _ ?dx] exI[of _ ?dy] conjI s e t i)
qed

section \<open>The dispatcher never panics\<close>









section \<open>The scanning loop, line by line\<close>







section \<open>The endpoint\<close>











section \<open>A stopped pipeline can always report its status\<close>

lemma Handoff_enabled:
  assumes "writer d = Handing msg" and "flusher d = Selecting"
  shows "\<exists>d'. step db Handoff d = Some d' \<and> writer d' = Ranging \<and> msgCh d' = msgCh d \<and>
           msgCh_closed d' = msgCh_closed d \<and>
           (flusher d' = Selecting \<or> (\<exists>e. flusher d' = Offering e))"
proof -
  let ?d1 = "d\<lparr>writer := Ranging, bulkBuffer := bulkBuffer d @ [msg],
                 bulkCap := (if length (bulkBuffer d) < bulkCap d then bulkCap d
                             else 2 * bulkCap d + 1)\<rparr>"
  let ?d' = "if length (bulkBuffer ?d1) = bulkCap ?d1 then flush db ?d1
             else ?d1\<lparr>timer := (timer ?d1)\<lparr>armed := True\<rparr>\<rparr>"
  have s: "step db Handoff d = Some ?d'"
    using assms by (simp add: step_Handoff Let_def)
  have f: "flusher (flush db ?d1) = Selecting \<or> (\<exists>e. flusher (flush db ?d1) = Offering e)"
    using assms(2) by (cases "Insert db (inserted ?d1) (bulkBuffer ?d1)") (simp_all add: flush_result)
  have "writer ?d' = Ranging \<and> msgCh ?d' = msgCh d \<and> msgCh_closed ?d' = msgCh_closed d \<and>
        (flusher ?d' = Selecting \<or> (\<exists>e. flusher ?d' = Offering e))"
  proof (cases "length (bulkBuffer ?d1) = bulkCap ?d1")
    case True
    then have "?d' = flush db ?d1" by simp
    with f show ?thesis by simp
  next
    case False
    then have "?d' = ?d1\<lparr>timer := (timer ?d1)\<lparr>armed := True\<rparr>\<rparr>" by simp
    with assms(2) show ?thesis by simp
  qed
  with s show ?thesis by blast
qed

lemma drain_selecting:
  "msgCh_closed d \<Longrightarrow> flusher d = Selecting \<Longrightarrow>
   \<exists>sched d'. run db sched d = Some d' \<and>
     (flusher d' = FlusherReturned \<or> (\<exists>e. flusher d' = Offering e))"
proof (induction "2 * length (msgCh d) + length (handing (writer d))" arbitrary: d rule: less_induct)
  case less
  show ?case
  proof (cases "writer d")
    case WriterReturned
    with less.prems have "run db [Done] d = Some (d\<lparr>flusher := FlusherReturned\<rparr>)"
      by (simp add: step_def)
    then show ?thesis by (intro exI[of _ "[Done]"] exI[of _ "d\<lparr>flusher := FlusherReturned\<rparr>"]) simp
  next
    case (Handing msg)
    from Handoff_enabled[OF Handing less.prems(2), of db] obtain d1 where
      s: "step db Handoff d = Some d1" and w: "writer d1 = Ranging" and m: "msgCh d1 = msgCh d"
      and c: "msgCh_closed d1 = msgCh_closed d"
      and f: "flusher d1 = Selecting \<or> (\<exists>e. flusher d1 = Offering e)"
      by blast
    from f show ?thesis
    proof
      assume sel: "flusher d1 = Selecting"
      have "2 * length (msgCh d1) + length (handing (writer d1)) <
            2 * length (msgCh d) + length (handing (writer d))"
        using w m Handing by simp
      from less.hyps[OF this _ sel] c less.prems(1) obtain sched d' where
        "run db sched d1 = Some d'"
        "flusher d' = FlusherReturned \<or> (\<exists>e. flusher d' = Offering e)"
        by auto
      with s have "run db (Handoff # sched) d = Some d' \<and>
          (flusher d' = FlusherReturned \<or> (\<exists>e. flusher d' = Offering e))" by simp
      then show ?thesis by blast
    next
      assume "\<exists>e. flusher d1 = Offering e"
      with s have "run db [Handoff] d = Some d1 \<and>
          (flusher d1 = FlusherReturned \<or> (\<exists>e. flusher d1 = Offering e))" by simp
      then show ?thesis by blast
    qed
  next
    case Ranging
    show ?thesis
    proof (cases "msgCh d")
      case Nil
      with Ranging less.prems
      have "run db [Exit, Done] d = Some (d\<lparr>writer := WriterReturned, flusher := FlusherReturned\<rparr>)"
        by (simp add: step_def)
      then show ?thesis
        by (intro exI[of _ "[Exit, Done]"]
              exI[of _ "d\<lparr>writer := WriterReturned, flusher := FlusherReturned\<rparr>"]) simp
    next
      case (Cons msg rest)
      let ?d1 = "d\<lparr>msgCh := rest, notified := notified d @ [msg], writer := Handing msg\<rparr>"
      from Cons Ranging have s: "step db Receive d = Some ?d1" by (simp add: step_def)
      have "2 * length (msgCh ?d1) + length (handing (writer ?d1)) <
            2 * length (msgCh d) + length (handing (writer d))"
        using Cons by simp
      from less.hyps[OF this] less.prems obtain sched d' where
        "run db sched ?d1 = Some d'"
        "flusher d' = FlusherReturned \<or> (\<exists>e. flusher d' = Offering e)"
        by auto
      with s have "run db (Receive # sched) d = Some d' \<and>
          (flusher d' = FlusherReturned \<or> (\<exists>e. flusher d' = Offering e))" by simp
      then show ?thesis by blast
    qed
  qed
qed

lemma drain_closed:
  assumes "msgCh_closed d"
  shows "\<exists>sched d'. run db sched d = Some d' \<and>
     (flusher d' = FlusherReturned \<or> (\<exists>e. flusher d' = Offering e))"
proof (cases "flusher d")
  case Connecting
  show ?thesis
  proof (cases "LogConn db")
    case None
    let ?d1 = "d\<lparr>flusher := Selecting\<rparr>"
    from None Connecting have s: "step db Connect d = Some ?d1" by (simp add: step_def)
    from drain_selecting[of ?d1 db] assms obtain sched d' where
      "run db sched ?d1 = Some d'"
      "flusher d' = FlusherReturned \<or> (\<exists>e. flusher d' = Offering e)"
      by auto
    with s have "run db (Connect # sched) d = Some d' \<and>
          (flusher d' = FlusherReturned \<or> (\<exists>e. flusher d' = Offering e))" by simp
    then show ?thesis by blast
  next
    case (Some e)
    with Connecting have "run db [Connect] d = Some (d\<lparr>flusher := Offering e\<rparr>)"
      by (simp add: step_def)
    then show ?thesis by (intro exI[of _ "[Connect]"] exI[of _ "d\<lparr>flusher := Offering e\<rparr>"]) simp
  qed
next
  case Selecting
  from drain_selecting[OF assms Selecting] show ?thesis .
next
  case (Offering e)
  then have "run db [] d = Some d \<and> (flusher d = FlusherReturned \<or> (\<exists>e. flusher d = Offering e))"
    by simp
  then show ?thesis by blast
next
  case FlusherReturned
  then have "run db [] d = Some d \<and> (flusher d = FlusherReturned \<or> (\<exists>e. flusher d = Offering e))"
    by simp
  then show ?thesis by blast
qed

text \<open>
  Whatever state a pipeline with an open queue is in and whatever the storage does, there
  is a schedule of its goroutines under which stopping it returns its status.
\<close>

lemma stopOne_can_return:
  assumes "\<not> msgCh_closed d"
  shows "\<exists>sched r d'. stopOne db sched d = Some (Returns (r, d'))"
proof -
  let ?d1 = "d\<lparr>msgCh_closed := True\<rparr>"
  from drain_closed[of ?d1 db] obtain sched d2 where
    r: "run db sched ?d1 = Some d2"
    and f: "flusher d2 = FlusherReturned \<or> (\<exists>e. flusher d2 = Offering e)"
    by auto
  from f obtain res where "recvErrCh d2 = Some res"
    by (auto simp: recvErrCh_def)
  with r assms have "stopOne db sched d = Some (Returns res)"
    by (cases res) (simp add: stopOne_def closeMsgCh_def)
  then show ?thesis by (cases res) blast
qed


lemma StopLoop_scheds_cong:
  "(\<And>n appD. dispatchers D n = Some appD \<Longrightarrow> scheds n = scheds' n) \<Longrightarrow>
   StopLoop db scheds order finalErr D = StopLoop db scheds' order finalErr D"
proof (induction order arbitrary: finalErr D)
  case Nil
  then show ?case by simp
next
  case (Cons name rest)
  show ?case
  proof (cases "dispatchers D name")
    case None
    with Cons.IH[OF Cons.prems] show ?thesis by simp
  next
    case (Some appD)
    then have eq: "scheds name = scheds' name" by (rule Cons.prems)
    have step: "StopLoop db scheds rest fe
            (D\<lparr>dispatchers := (dispatchers D)(name := None), retired := retired D @ [d3]\<rparr>) =
          StopLoop db scheds' rest fe
            (D\<lparr>dispatchers := (dispatchers D)(name := None), retired := retired D @ [d3]\<rparr>)"
      for fe d3
    proof (rule Cons.IH)
      fix n appD'
      assume "dispatchers (D\<lparr>dispatchers := (dispatchers D)(name := None),
                 retired := retired D @ [d3]\<rparr>) n = Some appD'"
      then have "dispatchers D n = Some appD'" by (simp split: if_splits)
      then show "scheds n = scheds' n" by (rule Cons.prems)
    qed
    show ?thesis
      using Some eq step by (simp split: option.splits call.splits)
  qed
qed

lemma StopLoop_can_return:
  "tableOpen D \<Longrightarrow> \<exists>scheds r D'. StopLoop db scheds order finalErr D = Some (Returns (r, D'))"
proof (induction order arbitrary: finalErr D)
  case Nil
  then show ?case by simp
next
  case (Cons name rest)
  show ?case
  proof (cases "dispatchers D name")
    case None
    from Cons.IH[OF Cons.prems, of finalErr] obtain scheds r D' where
      "StopLoop db scheds rest finalErr D = Some (Returns (r, D'))" by blast
    with None have "StopLoop db scheds (name # rest) finalErr D = Some (Returns (r, D'))" by simp
    then show ?thesis by blast
  next
    case (Some appD)
    with Cons.prems have "\<not> msgCh_closed appD" by (simp add: tableOpen_def)
    from stopOne_can_return[OF this, of db] obtain sched e d' where
      one: "stopOne db sched appD = Some (Returns (e, d'))" by blast
    let ?D1 = "D\<lparr>dispatchers := (dispatchers D)(name := None), retired := retired D @ [d']\<rparr>"
    have "tableOpen ?D1" using Cons.prems by (simp add: tableOpen_def)
    from Cons.IH[OF this, of "addErr finalErr e"] obtain scheds r D' where
      rest: "StopLoop db scheds rest (addErr finalErr e) ?D1 = Some (Returns (r, D'))" by blast
    let ?scheds = "scheds(name := sched)"
    have "StopLoop db ?scheds rest (addErr finalErr e) ?D1 =
          StopLoop db scheds rest (addErr finalErr e) ?D1"
      by (rule StopLoop_scheds_cong) (auto split: if_splits)
    with rest Some one
    have "StopLoop db ?scheds (name # rest) finalErr D = Some (Returns (r, D'))" by simp
    then show ?thesis by blast
  qed
qed

text \<open>
  \<^verbatim>\<open>Stop\<close> on a dispatcher none of whose pipelines has a closed queue can always return:
  there are schedules of the pipelines' goroutines under which every status is received.
\<close>

lemma Stop_can_return:
  "tableOpen D \<Longrightarrow> \<exists>scheds r D'. Stop db order scheds D = Some (Returns (r, D'))"
  unfolding Stop_def by (rule StopLoop_can_return)

end
